theory Spec2Isabelle
  imports Complex_Main "HOL-Library.Word"
begin

section \<open>Values shared by all threads\<close>

text \<open>
  The program is \<^verbatim>\<open>MainCmds::selfplay\<close> of \<^verbatim>\<open>cpp/selfplay.cpp\<close>. Pointers to
  evaluators (\<^verbatim>\<open>NNEvaluator*\<close>) and to finished games (\<^verbatim>\<open>FinishedGameData*\<close>) are
  natural numbers; a pointer that may be \<^verbatim>\<open>NULL\<close> is an \<open>option\<close>. An exception that
  leaves a thread, a failed \<^verbatim>\<open>assert\<close> and an out-of-range read of a vector end the
  process; they are values of \<open>failure\<close>.
\<close>

datatype failure = StringError string | AssertFailed | OutOfBounds

datatype thread = Worker nat | Poller | MainThread

datatype event =
    EvAcquire nat
  | EvRelease nat
  | EvFetchIdx int
  | EvCountStarted nat
  | EvRunGame int nat
  | EvCallbackReturned "nat option"
  | EvGameReturned nat "nat option"
  | EvEnqueue nat nat
  | EvInitNNEval string "32 word"
  | EvMakeDirs nat bool
  | EvSleep real
  | EvLoadModel string
  | EvSchedule string
  | EvJoinedWorkers
  | EvStoreStop
  | EvNotify
  | EvJoinedPoller

record config =
  numGameThreads :: nat
  numSearchThreads :: "32 word"
  maxGamesTotal :: int
  switchNetsMidGame :: bool

section \<open>The manager\<close>

text \<open>
  \<^verbatim>\<open>SelfplayManager\<close> is declared in \<^verbatim>\<open>program/selfplaymanager.h\<close>, which is not among
  the sources. Its state and its operations are modelled from section 4.1 of the
  specification: a table of live handles in load order (newest last), a reference count
  and a retirement flag per handle, and the log of the runs of the destroy routine.
\<close>

record manager =
  handles :: "nat list"
  modelName :: "nat \<Rightarrow> string"
  refCount :: "nat \<Rightarrow> int"
  retiring :: "nat \<Rightarrow> bool"
  destroyLog :: "nat list"
  nextHandle :: nat
  gamesStarted :: "nat \<Rightarrow> nat"
  dataQueue :: "(nat \<times> nat) list"

definition emptyManager :: manager where
  "emptyManager =
     \<lparr>handles = [], modelName = (\<lambda>_. []), refCount = (\<lambda>_. 0), retiring = (\<lambda>_. False),
      destroyLog = [], nextHandle = 0, gamesStarted = (\<lambda>_. 0), dataQueue = []\<rparr>"

text \<open>
  Modelled from the spec: the destroy routine of a handle (pipeline flush and close,
  resource teardown). The handle leaves the table and the run is logged.
\<close>

definition destroyHandle :: "nat \<Rightarrow> manager \<Rightarrow> manager" where
  "destroyHandle h m =
     m\<lparr>handles := removeAll h (handles m), destroyLog := destroyLog m @ [h]\<rparr>"

text \<open>
  Modelled from the spec: \<^verbatim>\<open>acquireLatest\<close> returns the newest handle that is not
  destroyed and adds one to its reference count; a retiring handle is never offered;
  with nothing to offer it returns \<^verbatim>\<open>NULL\<close>.
\<close>

definition acquireLatest :: "manager \<Rightarrow> nat option \<times> manager" where
  "acquireLatest m =
     (if handles m = [] then (None, m)
      else let h = last (handles m) in
        if retiring m h then (None, m)
        else (Some h, m\<lparr>refCount := (refCount m)(h := refCount m h + 1)\<rparr>))"

text \<open>
  Modelled from the spec: \<^verbatim>\<open>release\<close> subtracts one from the reference count; when the
  handle is retiring and the count reaches zero the destroy routine runs. Releasing a
  handle that is not in the table is the fatal invariant violation of section 7.
\<close>

definition release :: "nat \<Rightarrow> manager \<Rightarrow> failure + manager" where
  "release h m =
     (if h \<notin> set (handles m) then Inl (StringError ''release: could not find model'')
      else let m' = m\<lparr>refCount := (refCount m)(h := refCount m h - 1)\<rparr> in
        Inr (if retiring m' h \<and> refCount m' h = 0 then destroyHandle h m' else m'))"

text \<open>
  Modelled from the spec: \<^verbatim>\<open>loadModelAndStartDataWriting\<close> installs a new handle as the
  latest one and leaves every other handle as it is.
\<close>

definition loadModelAndStartDataWriting :: "string \<Rightarrow> manager \<Rightarrow> manager" where
  "loadModelAndStartDataWriting name m =
     (let h = nextHandle m in
      m\<lparr>handles := handles m @ [h],
        modelName := (modelName m)(h := name),
        refCount := (refCount m)(h := 0),
        retiring := (retiring m)(h := False),
        nextHandle := h + 1\<rparr>)"

text \<open>
  Modelled from the spec: \<^verbatim>\<open>scheduleCleanupModelWhenFree\<close> marks the named handle
  retiring; with a reference count of zero the destroy routine runs at once, otherwise
  at the last matching release. A name that no live handle carries changes nothing.
\<close>

definition scheduleCleanupModelWhenFree :: "string \<Rightarrow> manager \<Rightarrow> manager" where
  "scheduleCleanupModelWhenFree name m =
     (case find (\<lambda>h. modelName m h = name) (handles m) of
        None \<Rightarrow> m
      | Some h \<Rightarrow>
          let m' = m\<lparr>retiring := (retiring m)(h := True)\<rparr> in
          if refCount m' h = 0 then destroyHandle h m' else m')"

text \<open>Modelled from the spec: the read-only snapshots the poller takes.\<close>

definition getLatestModelName :: "manager \<Rightarrow> string" where
  "getLatestModelName m = (if handles m = [] then [] else modelName m (last (handles m)))"

definition modelNames :: "manager \<Rightarrow> string list" where
  "modelNames m = map (modelName m) (handles m)"

text \<open>
  Modelled from the spec: the per-handle counter of started games, and the hand-over
  of a finished game to the handle's pipeline (the blocking of a full queue is not
  modelled: the call returns).
\<close>

definition countOneGameStarted :: "nat \<Rightarrow> manager \<Rightarrow> manager" where
  "countOneGameStarted h m = m\<lparr>gamesStarted := (gamesStarted m)(h := gamesStarted m h + 1)\<rparr>"

definition enqueueDataToWrite :: "nat \<Rightarrow> nat \<Rightarrow> manager \<Rightarrow> manager" where
  "enqueueDataToWrite h g m = m\<lparr>dataQueue := dataQueue m @ [(h, g)]\<rparr>"

section \<open>Loading the latest net\<close>

text \<open>
  The lambda \<^verbatim>\<open>loadLatestNeuralNetIntoManager\<close> (lines 127-208). What the file system
  and the random generator answer is the environment of one call: the model
  \<^verbatim>\<open>LoadModel::findLatestModel\<close> finds, whether the \<open>j\<close>-th \<^verbatim>\<open>MakeDir::make\<close> of the
  \<open>i\<close>-th attempt returns (or throws \<^verbatim>\<open>StringError\<close>), and the \<open>i\<close>-th value of
  \<^verbatim>\<open>rand.nextDouble()\<close>.
\<close>

record loadEnv =
  foundModel :: "string option"
  mkdirOK :: "nat \<Rightarrow> nat \<Rightarrow> bool"
  randDouble :: "nat \<Rightarrow> real"

text \<open>
  Line 144, in the 32-bit \<^verbatim>\<open>int\<close> of the source:
  \<^verbatim>\<open>cfg.getInt("numSearchThreads") * numGameThreads * 2 + 16\<close>.
\<close>

definition maxConcurrentEvals :: "config \<Rightarrow> 32 word" where
  "maxConcurrentEvals cfg = numSearchThreads cfg * of_nat (numGameThreads cfg) * 2 + 16"

text \<open>The body of the \<^verbatim>\<open>try\<close> block, lines 166-170: four calls, the first throw ends it.\<close>

definition attemptDirs :: "loadEnv \<Rightarrow> nat \<Rightarrow> bool" where
  "attemptDirs env i = (mkdirOK env i 0 \<and> mkdirOK env i 1 \<and> mkdirOK env i 2 \<and> mkdirOK env i 3)"

text \<open>
  The loop of lines 163-189, from iteration \<open>i\<close>. The result is \<open>False\<close> where the
  source returns \<open>false\<close> from the lambda (line 183) and \<open>True\<close> where it leaves the loop.
\<close>

function makeDirsLoop :: "loadEnv \<Rightarrow> nat \<Rightarrow> nat \<Rightarrow> bool \<times> event list" where
  "makeDirsLoop env maxTries i =
     (if i < maxTries then
        (if attemptDirs env i then (True, [EvMakeDirs i True])
         else if i = maxTries - 1 then (False, [EvMakeDirs i False])
         else (fst (makeDirsLoop env maxTries (i + 1)),
               EvMakeDirs i False # EvSleep (10 + randDouble env i * 30)
                 # snd (makeDirsLoop env maxTries (i + 1))))
      else (True, []))"
  by pat_completeness auto
termination
  by (relation "measure (\<lambda>(env, maxTries, i). maxTries - i)") auto

declare makeDirsLoop.simps [simp del]

record loadResult =
  loadOK :: bool
  loadedMgr :: manager
  loadEvents :: "event list"

definition loadLatestNeuralNetIntoManager ::
  "config \<Rightarrow> loadEnv \<Rightarrow> string option \<Rightarrow> manager \<Rightarrow> loadResult" where
  "loadLatestNeuralNetIntoManager cfg env lastNetName m =
     (case foundModel env of
        None \<Rightarrow> \<lparr>loadOK = False, loadedMgr = m, loadEvents = []\<rparr>
      | Some name \<Rightarrow>
          if lastNetName = Some name
          then \<lparr>loadOK = False, loadedMgr = m, loadEvents = []\<rparr>
          else
            let dirs = makeDirsLoop env 5 0 in
            if \<not> fst dirs
            then \<lparr>loadOK = False, loadedMgr = m,
                  loadEvents = EvInitNNEval name (maxConcurrentEvals cfg) # snd dirs\<rparr>
            else \<lparr>loadOK = True, loadedMgr = loadModelAndStartDataWriting name m,
                  loadEvents =
                    EvInitNNEval name (maxConcurrentEvals cfg) # snd dirs @ [EvLoadModel name]\<rparr>)"

section \<open>The threads\<close>

text \<open>
  A game thread runs \<^verbatim>\<open>gameLoop\<close> (lines 223-294). Its program counter names the next
  access to shared state; \<^verbatim>\<open>W_Callback new\<close> is inside \<^verbatim>\<open>checkForNewNNEval\<close>, between
  its \<^verbatim>\<open>acquireLatest\<close> and its \<^verbatim>\<open>release\<close>.
\<close>

datatype wpc =
    W_CheckStop | W_Acquire | W_FetchIdx | W_CountStarted | W_InGame | W_Callback nat
  | W_Enqueue | W_Release | W_Done

record worker =
  wpc :: wpc
  nnEval :: nat
  prevModelName :: string
  gameIdx :: int
  gameData :: "nat option"

text \<open>What \<^verbatim>\<open>runGame\<close> does next: it calls the callback, or it returns.\<close>

datatype gameEnv = InvokeCallback | GameReturns "nat option"

text \<open>The model loading thread runs \<^verbatim>\<open>modelLoadLoop\<close> (lines 299-330).\<close>

datatype ppc =
    P_CheckStop | P_GetLatestName | P_Load | P_ModelNames | P_Sweep nat | P_CheckStop2
  | P_Lock | P_WaitPred | P_Sleeping | P_Relock bool | P_FinalNames | P_FinalSweep nat
  | P_Done

record poller =
  ppc :: ppc
  lastNetName :: string
  snapshot :: "string list"

text \<open>The main thread from line 338 on.\<close>

datatype mpc = M_JoinWorkers | M_StoreStop | M_Lock | M_Notify | M_JoinPoller | M_Exit

record sys =
  mgr :: manager
  shouldStop :: bool
  sigReceived :: bool
  numGamesStarted :: int
  workers :: "nat \<Rightarrow> worker"
  pollerSt :: poller
  mainPc :: mpc
  modelLoadMutex :: "thread option"
  aborted :: "failure option"
  trace :: "(thread \<times> event) list"

definition abort :: "failure \<Rightarrow> sys \<Rightarrow> sys" where
  "abort e s = s\<lparr>aborted := Some e\<rparr>"

definition setWorker :: "nat \<Rightarrow> worker \<Rightarrow> sys \<Rightarrow> sys" where
  "setWorker t w s = s\<lparr>workers := (workers s)(t := w)\<rparr>"

definition logEvents :: "thread \<Rightarrow> event list \<Rightarrow> sys \<Rightarrow> sys" where
  "logEvents th es s = s\<lparr>trace := trace s @ map (Pair th) es\<rparr>"

text \<open>\<^verbatim>\<open>fetch_add\<close> on \<^verbatim>\<open>std::atomic<int64_t>\<close> wraps in two's complement.\<close>

definition wrap64 :: "int \<Rightarrow> int" where
  "wrap64 x = (x + 2 ^ 63) mod 2 ^ 64 - 2 ^ 63"

subsection \<open>The game loop\<close>

text \<open>Lines 237-238.\<close>

definition w_checkStop :: "nat \<Rightarrow> sys \<Rightarrow> sys" where
  "w_checkStop t s =
     setWorker t ((workers s t)\<lparr>wpc := (if shouldStop s then W_Done else W_Acquire)\<rparr>) s"

text \<open>Lines 239-245.\<close>

definition w_acquire :: "nat \<Rightarrow> sys \<Rightarrow> sys" where
  "w_acquire t s =
     (case acquireLatest (mgr s) of
        (None, m) \<Rightarrow> abort AssertFailed s
      | (Some h, m) \<Rightarrow>
          logEvents (Worker t) [EvAcquire h]
            (setWorker t
               ((workers s t)\<lparr>nnEval := h, prevModelName := modelName m h, wpc := W_FetchIdx\<rparr>)
               (s\<lparr>mgr := m\<rparr>)))"

text \<open>Lines 262-264.\<close>

definition w_fetchIdx :: "nat \<Rightarrow> sys \<Rightarrow> sys" where
  "w_fetchIdx t s =
     logEvents (Worker t) [EvFetchIdx (numGamesStarted s)]
       (setWorker t
          ((workers s t)\<lparr>gameData := None, gameIdx := numGamesStarted s, wpc := W_CountStarted\<rparr>)
          (s\<lparr>numGamesStarted := wrap64 (numGamesStarted s + 1)\<rparr>))"

text \<open>Lines 265-277, up to the call of \<^verbatim>\<open>runGame\<close>.\<close>

definition w_countStarted :: "config \<Rightarrow> nat \<Rightarrow> sys \<Rightarrow> sys" where
  "w_countStarted cfg t s =
     (let w = workers s t;
          s1 = logEvents (Worker t) [EvCountStarted (nnEval w)]
                 (s\<lparr>mgr := countOneGameStarted (nnEval w) (mgr s)\<rparr>)
      in if gameIdx w < maxGamesTotal cfg
         then logEvents (Worker t) [EvRunGame (gameIdx w) (nnEval w)]
                (setWorker t (w\<lparr>wpc := W_InGame\<rparr>) s1)
         else setWorker t (w\<lparr>wpc := W_Enqueue\<rparr>) s1)"

text \<open>
  The second half of \<^verbatim>\<open>checkForNewNNEval\<close>, lines 251-259, after \<^verbatim>\<open>acquireLatest\<close>
  returned \<open>new\<close>: the new manager, the new value of \<^verbatim>\<open>nnEval\<close> and the returned pointer.
\<close>

definition cbDecide :: "nat \<Rightarrow> nat \<Rightarrow> manager \<Rightarrow> failure + (manager \<times> nat \<times> nat option)" where
  "cbDecide cur new m =
     (if new = cur
      then (case release new m of Inl e \<Rightarrow> Inl e | Inr m' \<Rightarrow> Inr (m', cur, None))
      else (case release cur m of Inl e \<Rightarrow> Inl e | Inr m' \<Rightarrow> Inr (m', new, Some new)))"

text \<open>The whole callback, lines 248-260, with no other thread in between.\<close>

definition checkForNewNNEval :: "nat \<Rightarrow> manager \<Rightarrow> failure + (manager \<times> nat \<times> nat option)" where
  "checkForNewNNEval cur m =
     (case acquireLatest m of
        (None, m1) \<Rightarrow> Inl AssertFailed
      | (Some new, m1) \<Rightarrow> cbDecide cur new m1)"

text \<open>
  Inside \<^verbatim>\<open>runGame\<close>: the callback is called (only if \<^verbatim>\<open>switchNetsMidGame\<close> passed it,
  line 276), or the game returns its data or \<^verbatim>\<open>NULL\<close>.
\<close>

definition w_inGame :: "config \<Rightarrow> nat \<Rightarrow> gameEnv \<Rightarrow> sys \<Rightarrow> sys" where
  "w_inGame cfg t env s =
     (case env of
        InvokeCallback \<Rightarrow>
          if switchNetsMidGame cfg then
            (case acquireLatest (mgr s) of
               (None, m) \<Rightarrow> abort AssertFailed s
             | (Some new, m) \<Rightarrow>
                 logEvents (Worker t) [EvAcquire new]
                   (setWorker t ((workers s t)\<lparr>wpc := W_Callback new\<rparr>) (s\<lparr>mgr := m\<rparr>)))
          else s
      | GameReturns r \<Rightarrow>
          logEvents (Worker t) [EvGameReturned (nnEval (workers s t)) r]
            (setWorker t ((workers s t)\<lparr>gameData := r, wpc := W_Enqueue\<rparr>) s))"

definition w_callback :: "nat \<Rightarrow> nat \<Rightarrow> sys \<Rightarrow> sys" where
  "w_callback t new s =
     (let w = workers s t in
      case cbDecide (nnEval w) new (mgr s) of
        Inl e \<Rightarrow> abort e s
      | Inr (m, cur, ret) \<Rightarrow>
          logEvents (Worker t)
            [EvRelease (if new = nnEval w then new else nnEval w), EvCallbackReturned ret]
            (setWorker t (w\<lparr>nnEval := cur, prevModelName := modelName m cur, wpc := W_InGame\<rparr>)
               (s\<lparr>mgr := m\<rparr>)))"

text \<open>Lines 282-285.\<close>

definition w_enqueue :: "nat \<Rightarrow> sys \<Rightarrow> sys" where
  "w_enqueue t s =
     (let w = workers s t in
      case gameData w of
        None \<Rightarrow> setWorker t (w\<lparr>wpc := W_Release\<rparr>) s
      | Some g \<Rightarrow>
          logEvents (Worker t) [EvEnqueue (nnEval w) g]
            (setWorker t (w\<lparr>wpc := W_Release\<rparr>)
               (s\<lparr>mgr := enqueueDataToWrite (nnEval w) g (mgr s)\<rparr>)))"

text \<open>Lines 287-290.\<close>

definition w_release :: "nat \<Rightarrow> sys \<Rightarrow> sys" where
  "w_release t s =
     (let w = workers s t in
      case release (nnEval w) (mgr s) of
        Inl e \<Rightarrow> abort e s
      | Inr m \<Rightarrow>
          logEvents (Worker t) [EvRelease (nnEval w)]
            (setWorker t (w\<lparr>wpc := (if gameData w \<noteq> None then W_CheckStop else W_Done)\<rparr>)
               (s\<lparr>mgr := m\<rparr>)))"

definition workerStep :: "config \<Rightarrow> nat \<Rightarrow> gameEnv \<Rightarrow> sys \<Rightarrow> sys" where
  "workerStep cfg t env s =
     (case wpc (workers s t) of
        W_CheckStop \<Rightarrow> w_checkStop t s
      | W_Acquire \<Rightarrow> w_acquire t s
      | W_FetchIdx \<Rightarrow> w_fetchIdx t s
      | W_CountStarted \<Rightarrow> w_countStarted cfg t s
      | W_InGame \<Rightarrow> w_inGame cfg t env s
      | W_Callback new \<Rightarrow> w_callback t new s
      | W_Enqueue \<Rightarrow> w_enqueue t s
      | W_Release \<Rightarrow> w_release t s
      | W_Done \<Rightarrow> s)"

subsection \<open>The model loading loop\<close>

definition setPpc :: "ppc \<Rightarrow> sys \<Rightarrow> sys" where
  "setPpc pc s = s\<lparr>pollerSt := (pollerSt s)\<lparr>ppc := pc\<rparr>\<rparr>"

text \<open>
  The bound \<^verbatim>\<open>modelNames.size()-1\<close> of the two sweeps is computed in \<^verbatim>\<open>size_t\<close>:
  for an empty vector it is \<open>2^64 - 1\<close>.
\<close>

definition sizeMinusOne :: "string list \<Rightarrow> nat" where
  "sizeMinusOne ns = (length ns + 2 ^ 64 - 1) mod 2 ^ 64"

text \<open>
  One iteration of \<^verbatim>\<open>for(size_t i = 0; i < modelNames.size()-1; i++)\<close> (lines 312-313
  and 326-327); \<open>mk\<close> is the program counter of iteration \<open>i + 1\<close>, \<open>after\<close> the one
  behind the loop.
\<close>

definition sweepStep :: "(nat \<Rightarrow> ppc) \<Rightarrow> ppc \<Rightarrow> nat \<Rightarrow> sys \<Rightarrow> sys" where
  "sweepStep mk after i s =
     (let ns = snapshot (pollerSt s) in
      if i < sizeMinusOne ns then
        (if i < length ns then
           logEvents Poller [EvSchedule (ns ! i)]
             (setPpc (mk (i + 1)) (s\<lparr>mgr := scheduleCleanupModelWhenFree (ns ! i) (mgr s)\<rparr>))
         else abort OutOfBounds s)
      else setPpc after s)"

definition pollerStep :: "config \<Rightarrow> loadEnv \<Rightarrow> bool \<Rightarrow> sys \<Rightarrow> sys" where
  "pollerStep cfg env timedOut s =
     (case ppc (pollerSt s) of
        P_CheckStop \<Rightarrow> setPpc (if shouldStop s then P_FinalNames else P_GetLatestName) s
      | P_GetLatestName \<Rightarrow>
          s\<lparr>pollerSt := (pollerSt s)\<lparr>lastNetName := getLatestModelName (mgr s), ppc := P_Load\<rparr>\<rparr>
      | P_Load \<Rightarrow>
          (let r = loadLatestNeuralNetIntoManager cfg env (Some (lastNetName (pollerSt s))) (mgr s)
           in logEvents Poller (loadEvents r)
                (setPpc (if loadOK r then P_ModelNames else P_CheckStop2) (s\<lparr>mgr := loadedMgr r\<rparr>)))
      | P_ModelNames \<Rightarrow>
          (if modelNames (mgr s) = [] then abort AssertFailed s
           else s\<lparr>pollerSt := (pollerSt s)\<lparr>snapshot := modelNames (mgr s), ppc := P_Sweep 0\<rparr>\<rparr>)
      | P_Sweep i \<Rightarrow> sweepStep P_Sweep P_CheckStop2 i s
      | P_CheckStop2 \<Rightarrow> setPpc (if shouldStop s then P_FinalNames else P_Lock) s
      | P_Lock \<Rightarrow>
          (if modelLoadMutex s = None then setPpc P_WaitPred (s\<lparr>modelLoadMutex := Some Poller\<rparr>)
           else s)
      | P_WaitPred \<Rightarrow>
          setPpc (if shouldStop s then P_CheckStop else P_Sleeping) (s\<lparr>modelLoadMutex := None\<rparr>)
      | P_Sleeping \<Rightarrow> setPpc (P_Relock timedOut) s
      | P_Relock b \<Rightarrow>
          (if modelLoadMutex s = None then
             (if b then setPpc P_CheckStop s
              else setPpc P_WaitPred (s\<lparr>modelLoadMutex := Some Poller\<rparr>))
           else s)
      | P_FinalNames \<Rightarrow>
          s\<lparr>pollerSt := (pollerSt s)\<lparr>snapshot := modelNames (mgr s), ppc := P_FinalSweep 0\<rparr>\<rparr>
      | P_FinalSweep i \<Rightarrow> sweepStep P_FinalSweep P_Done i s
      | P_Done \<Rightarrow> s)"

subsection \<open>The main thread and the signal handler\<close>

text \<open>Lines 338-351: join the game threads, store the flag, lock, notify, join.\<close>

definition mainStep :: "config \<Rightarrow> sys \<Rightarrow> sys" where
  "mainStep cfg s =
     (case mainPc s of
        M_JoinWorkers \<Rightarrow>
          (if list_all (\<lambda>t. wpc (workers s t) = W_Done) [0..<numGameThreads cfg]
           then logEvents MainThread [EvJoinedWorkers] (s\<lparr>mainPc := M_StoreStop\<rparr>)
           else s)
      | M_StoreStop \<Rightarrow> logEvents MainThread [EvStoreStop] (s\<lparr>shouldStop := True, mainPc := M_Lock\<rparr>)
      | M_Lock \<Rightarrow>
          (if modelLoadMutex s = None
           then s\<lparr>modelLoadMutex := Some MainThread, mainPc := M_Notify\<rparr>
           else s)
      | M_Notify \<Rightarrow> logEvents MainThread [EvNotify] (s\<lparr>mainPc := M_JoinPoller\<rparr>)
      | M_JoinPoller \<Rightarrow>
          (if ppc (pollerSt s) = P_Done
           then logEvents MainThread [EvJoinedPoller] (s\<lparr>modelLoadMutex := None, mainPc := M_Exit\<rparr>)
           else s)
      | M_Exit \<Rightarrow> s)"

text \<open>Lines 27-33.\<close>

definition signalHandler :: "sys \<Rightarrow> sys" where
  "signalHandler s = s\<lparr>sigReceived := True, shouldStop := True\<rparr>"

subsection \<open>Schedules\<close>

datatype choice =
    WorkerStep nat gameEnv
  | PollerStep loadEnv bool
  | MainStep
  | SignalStep

definition sysStep :: "config \<Rightarrow> sys \<Rightarrow> choice \<Rightarrow> sys" where
  "sysStep cfg s c =
     (if aborted s \<noteq> None then s
      else case c of
        WorkerStep t env \<Rightarrow> if t < numGameThreads cfg then workerStep cfg t env s else s
      | PollerStep env timedOut \<Rightarrow> pollerStep cfg env timedOut s
      | MainStep \<Rightarrow> mainStep cfg s
      | SignalStep \<Rightarrow> signalHandler s)"

definition run :: "config \<Rightarrow> choice list \<Rightarrow> sys \<Rightarrow> sys" where
  "run cfg cs s = foldl (sysStep cfg) s cs"

text \<open>
  Lines 210-215 and 332-336: the first load, with \<^verbatim>\<open>lastNetName = NULL\<close>; if it fails
  the program throws, otherwise the threads start.
\<close>

definition initWorker :: worker where
  "initWorker = \<lparr>wpc = W_CheckStop, nnEval = 0, prevModelName = [], gameIdx = 0, gameData = None\<rparr>"

definition startThreads :: "manager \<Rightarrow> event list \<Rightarrow> sys" where
  "startThreads m es =
     \<lparr>mgr = m, shouldStop = False, sigReceived = False, numGamesStarted = 0,
      workers = (\<lambda>_. initWorker),
      pollerSt = \<lparr>ppc = P_CheckStop, lastNetName = [], snapshot = []\<rparr>,
      mainPc = M_JoinWorkers, modelLoadMutex = None, aborted = None,
      trace = map (Pair MainThread) es\<rparr>"

definition selfplay :: "config \<Rightarrow> loadEnv \<Rightarrow> failure + sys" where
  "selfplay cfg env =
     (let r = loadLatestNeuralNetIntoManager cfg env None emptyManager in
      if \<not> loadOK r
      then Inl (StringError ''Either could not load latest neural net or access/write appopriate directories'')
      else Inr (startThreads (loadedMgr r) (loadEvents r)))"

section \<open>Reading traces\<close>

text \<open>The attempts to make the directories and the sleeps of one call of the loader.\<close>

fun isAttempt :: "event \<Rightarrow> bool" where
  "isAttempt (EvMakeDirs i ok) = True"
| "isAttempt e = False"

fun isSleep :: "event \<Rightarrow> bool" where
  "isSleep (EvSleep d) = True"
| "isSleep e = False"

text \<open>
  What may follow what in the loop of lines 163-189: a failed attempt is followed by the
  sleep of line 186, a sleep by the next attempt, a successful attempt by nothing.
\<close>

definition sleepBetween :: "loadEnv \<Rightarrow> event \<Rightarrow> event \<Rightarrow> bool" where
  "sleepBetween env a b =
     (case a of
        EvMakeDirs i ok \<Rightarrow> \<not> ok \<and> b = EvSleep (10 + randDouble env i * 30)
      | EvSleep d \<Rightarrow> isAttempt b
      | _ \<Rightarrow> False)"

section \<open>Observations\<close>

text \<open>The calls of one thread, in the order it made them.\<close>

definition threadEvents :: "thread \<Rightarrow> (thread \<times> event) list \<Rightarrow> event list" where
  "threadEvents th tr = map snd (filter (\<lambda>x. fst x = th) tr)"

fun isAcquire :: "event \<Rightarrow> bool" where
  "isAcquire (EvAcquire h) = True"
| "isAcquire e = False"

fun isRelease :: "event \<Rightarrow> bool" where
  "isRelease (EvRelease h) = True"
| "isRelease e = False"

definition numAcquired :: "thread \<Rightarrow> sys \<Rightarrow> nat" where
  "numAcquired th s = length (filter isAcquire (threadEvents th (trace s)))"

definition numReleased :: "thread \<Rightarrow> sys \<Rightarrow> nat" where
  "numReleased th s = length (filter isRelease (threadEvents th (trace s)))"

text \<open>
  The references a game thread holds at each point of its loop: none between iterations,
  the one in \<^verbatim>\<open>nnEval\<close> from line 239 to line 287, and a second one inside the callback
  between its \<^verbatim>\<open>acquireLatest\<close> (line 249) and its \<^verbatim>\<open>release\<close> (line 252 or 255).
\<close>

fun heldAt :: "wpc \<Rightarrow> nat" where
  "heldAt W_CheckStop = 0"
| "heldAt W_Acquire = 0"
| "heldAt W_Done = 0"
| "heldAt (W_Callback new) = 2"
| "heldAt pc = 1"

definition refs :: "worker \<Rightarrow> nat \<Rightarrow> nat" where
  "refs w h =
     (if heldAt (wpc w) \<noteq> 0 \<and> nnEval w = h then 1 else 0) +
     (case wpc w of W_Callback new \<Rightarrow> (if new = h then 1 else 0) | _ \<Rightarrow> 0)"

definition totalRefs :: "config \<Rightarrow> sys \<Rightarrow> nat \<Rightarrow> nat" where
  "totalRefs cfg s h = (\<Sum>t<numGameThreads cfg. refs (workers s t) h)"

text \<open>
  The manager is consistent with \<open>R h\<close> references to each handle \<open>h\<close> being held: the
  counts are the held references, a held handle is in the table, a handle is in the
  destroy log exactly if it was issued and has left the table, and it left the table
  retiring and with count zero.
\<close>

definition mgrOK :: "manager \<Rightarrow> (nat \<Rightarrow> nat) \<Rightarrow> bool" where
  "mgrOK m R \<longleftrightarrow>
     distinct (handles m) \<and> distinct (destroyLog m) \<and>
     (\<forall>h \<in> set (handles m). h < nextHandle m \<and> (retiring m h \<longrightarrow> refCount m h \<noteq> 0)) \<and>
     (\<forall>h. h \<in> set (destroyLog m) \<longleftrightarrow> h < nextHandle m \<and> h \<notin> set (handles m)) \<and>
     (\<forall>h \<in> set (destroyLog m). retiring m h \<and> refCount m h = 0) \<and>
     (\<forall>h. refCount m h = int (R h)) \<and>
     (\<forall>h. 0 < R h \<longrightarrow> h \<in> set (handles m))"

text \<open>The game indices \<^verbatim>\<open>runGame\<close> was called with, in the order of the calls.\<close>

fun runGameIdx :: "thread \<times> event \<Rightarrow> int list" where
  "runGameIdx (th, EvRunGame i h) = [i]"
| "runGameIdx x = []"

definition runGameIdxs :: "sys \<Rightarrow> int list" where
  "runGameIdxs s = concat (map runGameIdx (trace s))"

text \<open>A thread that has drawn an index below the ceiling and not yet called \<^verbatim>\<open>runGame\<close>.\<close>

definition pendingIdx :: "config \<Rightarrow> worker \<Rightarrow> bool" where
  "pendingIdx cfg w \<longleftrightarrow> wpc w = W_CountStarted \<and> gameIdx w < maxGamesTotal cfg"

text \<open>
  Which call of a game thread may follow which, as far as finished games go: a game
  that returned data held under handle \<open>h\<close> is followed by the enqueue of that data
  tagged \<open>h\<close>, the enqueue by the release of \<open>h\<close>, and nothing else is followed by an
  enqueue.
\<close>

definition submitOrder :: "event \<Rightarrow> event \<Rightarrow> bool" where
  "submitOrder a b =
     (case a of
        EvGameReturned h (Some g) \<Rightarrow> b = EvEnqueue h g
      | EvEnqueue h g \<Rightarrow> b = EvRelease h
      | _ \<Rightarrow> (case b of EvEnqueue h g \<Rightarrow> False | _ \<Rightarrow> True))"

text \<open>The manager is consistent with the references the game threads hold.\<close>

definition refInv :: "config \<Rightarrow> sys \<Rightarrow> bool" where
  "refInv cfg s \<longleftrightarrow> mgrOK (mgr s) (totalRefs cfg s)"

text \<open>
  Per game thread: the acquisitions it has made are its releases plus the references it
  holds at its program counter.
\<close>

definition heldInv :: "sys \<Rightarrow> nat \<Rightarrow> bool" where
  "heldInv s t \<longleftrightarrow>
     numAcquired (Worker t) s = numReleased (Worker t) s + heldAt (wpc (workers s t))"

text \<open>The games handed to \<^verbatim>\<open>enqueueDataToWrite\<close>, with their handles, in the order of the calls.\<close>

fun enqueuedBy :: "thread \<times> event \<Rightarrow> (nat \<times> nat) list" where
  "enqueuedBy (th, EvEnqueue h g) = [(h, g)]"
| "enqueuedBy x = []"

definition enqueuedData :: "sys \<Rightarrow> (nat \<times> nat) list" where
  "enqueuedData s = concat (map enqueuedBy (trace s))"

text \<open>
  Where a game thread is after its last call: after a game that returned data it is at
  line 284 with that data and the handle it held; after an enqueue it is at line 287
  with the handle of the enqueue; after any other call it is not about to enqueue data.
\<close>

definition lastFits :: "event \<Rightarrow> worker \<Rightarrow> bool" where
  "lastFits e w =
     (case e of
        EvGameReturned h r \<Rightarrow>
          (case r of
             Some g \<Rightarrow> wpc w = W_Enqueue \<and> gameData w = Some g \<and> nnEval w = h
           | None \<Rightarrow> \<not> (wpc w = W_Enqueue \<and> gameData w \<noteq> None))
      | EvEnqueue h g \<Rightarrow> wpc w = W_Release \<and> nnEval w = h
      | _ \<Rightarrow> \<not> (wpc w = W_Enqueue \<and> gameData w \<noteq> None))"

text \<open>
  Per game thread: its calls are in submit order and start with an acquisition, its
  last call fits its program counter, and it has made a call unless it is between
  iterations or done.
\<close>

definition orderLocal :: "event list \<Rightarrow> worker \<Rightarrow> bool" where
  "orderLocal evs w \<longleftrightarrow>
     successively submitOrder evs \<and>
     (evs = [] \<longrightarrow> wpc w = W_CheckStop \<or> wpc w = W_Acquire \<or> wpc w = W_Done) \<and>
     (evs \<noteq> [] \<longrightarrow> isAcquire (hd evs) \<and> lastFits (last evs) w) \<and>
     (wpc w = W_CountStarted \<longrightarrow> gameData w = None)"

definition orderInv :: "sys \<Rightarrow> nat \<Rightarrow> bool" where
  "orderInv s t \<longleftrightarrow> orderLocal (threadEvents (Worker t) (trace s)) (workers s t)"

text \<open>The steps of the shutdown sequence of lines 338-351 that the main thread has taken.\<close>

fun isShutdownEv :: "event \<Rightarrow> bool" where
  "isShutdownEv EvJoinedWorkers = True"
| "isShutdownEv EvStoreStop = True"
| "isShutdownEv EvNotify = True"
| "isShutdownEv EvJoinedPoller = True"
| "isShutdownEv e = False"

definition shutdownEvents :: "sys \<Rightarrow> event list" where
  "shutdownEvents s = filter isShutdownEv (threadEvents MainThread (trace s))"

fun mainProgress :: "mpc \<Rightarrow> nat" where
  "mainProgress M_JoinWorkers = 0"
| "mainProgress M_StoreStop = 1"
| "mainProgress M_Lock = 2"
| "mainProgress M_Notify = 2"
| "mainProgress M_JoinPoller = 3"
| "mainProgress M_Exit = 4"

definition shutdownInv :: "config \<Rightarrow> sys \<Rightarrow> bool" where
  "shutdownInv cfg s \<longleftrightarrow>
     shutdownEvents s =
       take (mainProgress (mainPc s)) [EvJoinedWorkers, EvStoreStop, EvNotify, EvJoinedPoller] \<and>
     (mainPc s \<noteq> M_JoinWorkers \<longrightarrow>
        list_all (\<lambda>t. wpc (workers s t) = W_Done) [0..<numGameThreads cfg]) \<and>
     (2 \<le> mainProgress (mainPc s) \<longrightarrow> shouldStop s) \<and>
     (mainPc s = M_Exit \<longrightarrow> ppc (pollerSt s) = P_Done)"

text \<open>The game threads whose last drawn index has reached the ceiling.\<close>

definition overdrawn :: "config \<Rightarrow> sys \<Rightarrow> nat set" where
  "overdrawn cfg s = {t. t < numGameThreads cfg \<and> maxGamesTotal cfg \<le> gameIdx (workers s t)}"

text \<open>
  A game thread whose index has reached the ceiling is on its way out of the loop with
  no game data; a thread that has just drawn has no game data either (line 262).
\<close>

definition idxLocal :: "config \<Rightarrow> worker \<Rightarrow> bool" where
  "idxLocal cfg w \<longleftrightarrow>
     (maxGamesTotal cfg \<le> gameIdx w \<longrightarrow>
        (wpc w = W_CountStarted \<or> wpc w = W_Enqueue \<or> wpc w = W_Release \<or> wpc w = W_Done) \<and>
        (wpc w \<noteq> W_Done \<longrightarrow> gameData w = None)) \<and>
     (wpc w = W_CountStarted \<longrightarrow> gameData w = None)"

text \<open>
  The shared counter and the indices handed out: the counter is at most the ceiling plus
  the number of threads that drew at or above it; the indices \<^verbatim>\<open>runGame\<close> was called with
  are distinct; together with the indices drawn and not yet used they are the integers
  from 0 up to the counter or the ceiling; and no pending index is used or held twice.
\<close>

definition idxInv :: "config \<Rightarrow> sys \<Rightarrow> bool" where
  "idxInv cfg s \<longleftrightarrow>
     0 \<le> numGamesStarted s \<and>
     numGamesStarted s \<le> maxGamesTotal cfg + int (card (overdrawn cfg s)) \<and>
     (\<forall>t < numGameThreads cfg. idxLocal cfg (workers s t)) \<and>
     distinct (runGameIdxs s) \<and>
     (\<forall>i. (i \<in> set (runGameIdxs s) \<or>
           (\<exists>t < numGameThreads cfg. pendingIdx cfg (workers s t) \<and> gameIdx (workers s t) = i))
          \<longleftrightarrow> 0 \<le> i \<and> i < min (numGamesStarted s) (maxGamesTotal cfg)) \<and>
     (\<forall>t < numGameThreads cfg.
        pendingIdx cfg (workers s t) \<longrightarrow> gameIdx (workers s t) \<notin> set (runGameIdxs s)) \<and>
     (\<forall>t < numGameThreads cfg. \<forall>u < numGameThreads cfg.
        pendingIdx cfg (workers s t) \<and> pendingIdx cfg (workers s u) \<and>
        gameIdx (workers s t) = gameIdx (workers s u) \<longrightarrow> t = u)"

text \<open>
  The finished games a call hands over and the ones a call brings back from \<^verbatim>\<open>runGame\<close>,
  each with the handle of the call; and the finished game a thread holds at line 284 and
  has not yet handed over.
\<close>

fun submitted :: "event \<Rightarrow> (nat \<times> nat) list" where
  "submitted (EvEnqueue h g) = [(h, g)]"
| "submitted e = []"

fun finished :: "event \<Rightarrow> (nat \<times> nat) list" where
  "finished (EvGameReturned h (Some g)) = [(h, g)]"
| "finished e = []"

definition unsubmitted :: "worker \<Rightarrow> (nat \<times> nat) list" where
  "unsubmitted w =
     (if wpc w = W_Enqueue
      then (case gameData w of None \<Rightarrow> [] | Some g \<Rightarrow> [(nnEval w, g)])
      else [])"

section \<open>Sample inputs\<close>

text \<open>Concrete configurations, environments and states on which the theorems are run.\<close>

definition sampleCfg :: config where
  "sampleCfg = \<lparr>numGameThreads = 2, numSearchThreads = 3, maxGamesTotal = 2, switchNetsMidGame = True\<rparr>"

definition bigCfg :: config where
  "bigCfg = \<lparr>numGameThreads = 16384, numSearchThreads = 65536, maxGamesTotal = 2,
              switchNetsMidGame = True\<rparr>"

definition envFound :: "string \<Rightarrow> bool \<Rightarrow> loadEnv" where
  "envFound name ok = \<lparr>foundModel = Some name, mkdirOK = (\<lambda>i j. ok), randDouble = (\<lambda>i. 1 / 2)\<rparr>"

definition envNone :: loadEnv where
  "envNone = \<lparr>foundModel = None, mkdirOK = (\<lambda>i j. True), randDouble = (\<lambda>i. 1 / 2)\<rparr>"

definition sampleStart :: sys where
  "sampleStart =
     startThreads (loadModelAndStartDataWriting ''net1'' emptyManager)
       [EvInitNNEval ''net1'' 28, EvMakeDirs 0 True, EvLoadModel ''net1'']"

text \<open>The poller has read the name of the latest net and is about to call the loader.\<close>

definition schedToLoad :: "choice list" where
  "schedToLoad = [PollerStep envNone True, PollerStep envNone True]"

definition atLoad :: sys where
  "atLoad = run sampleCfg schedToLoad sampleStart"

text \<open>
  Game thread 0 has acquired the first net, drawn game index 0 and is inside \<^verbatim>\<open>runGame\<close>;
  then the poller finds and loads a second net.
\<close>

definition schedInGame :: "choice list" where
  "schedInGame =
     [WorkerStep 0 InvokeCallback, WorkerStep 0 InvokeCallback, WorkerStep 0 InvokeCallback,
      WorkerStep 0 InvokeCallback]"

definition schedLoadNet2 :: "choice list" where
  "schedLoadNet2 =
     [PollerStep envNone True, PollerStep envNone True, PollerStep (envFound ''net2'' True) True]"

definition inGame :: sys where
  "inGame = run sampleCfg schedInGame sampleStart"

definition inGameNewNet :: sys where
  "inGameNewNet = run sampleCfg (schedInGame @ schedLoadNet2) sampleStart"

text \<open>
  Shutdown with one net loaded, and shutdown after the second net was loaded while game
  thread 0 still holds the first: a signal arrives and the poller runs to its end.
\<close>

definition schedStopOneNet :: "choice list" where
  "schedStopOneNet =
     [SignalStep, PollerStep envNone True, PollerStep envNone True, PollerStep envNone True]"

definition schedStopTwoNets :: "choice list" where
  "schedStopTwoNets =
     [PollerStep envNone True, PollerStep envNone True, PollerStep envNone True, SignalStep,
      PollerStep envNone True, PollerStep envNone True, PollerStep envNone True,
      PollerStep envNone True]"

definition shutdownOneNet :: sys where
  "shutdownOneNet = run sampleCfg schedStopOneNet sampleStart"

definition shutdownTwoNets :: sys where
  "shutdownTwoNets = run sampleCfg (schedInGame @ schedLoadNet2 @ schedStopTwoNets) sampleStart"

text \<open>
  After the second net was loaded the poller marks the first one for cleanup while game
  thread 0 still holds it; then the game returns data 7, which is enqueued, and the
  thread releases the first net.
\<close>

definition schedDrain :: "choice list" where
  "schedDrain =
     [PollerStep envNone True, PollerStep envNone True, PollerStep envNone True,
      WorkerStep 0 (GameReturns (Some 7)), WorkerStep 0 InvokeCallback,
      WorkerStep 0 InvokeCallback]"

definition firstNetDrained :: sys where
  "firstNetDrained = run sampleCfg (schedInGame @ schedLoadNet2 @ schedDrain) sampleStart"

text \<open>Game thread 0 is inside the callback, between its acquire and its release.\<close>

definition schedCallback :: "choice list" where
  "schedCallback = [WorkerStep 0 InvokeCallback]"

definition inCallback :: sys where
  "inCallback = run sampleCfg (schedInGame @ schedCallback) sampleStart"

text \<open>
  After the second net was loaded, the callback of game thread 0 swaps to it; then the
  game returns data 7, which is enqueued, and the thread releases the second net.
\<close>

definition schedSwapFinish :: "choice list" where
  "schedSwapFinish =
     [WorkerStep 0 InvokeCallback, WorkerStep 0 InvokeCallback,
      WorkerStep 0 (GameReturns (Some 7)), WorkerStep 0 InvokeCallback,
      WorkerStep 0 InvokeCallback]"

definition swappedFinished :: sys where
  "swappedFinished = run sampleCfg (schedInGame @ schedLoadNet2 @ schedSwapFinish) sampleStart"

text \<open>
  Both game threads find the stop flag set after a signal and end; the poller runs to its
  end; the main thread joins the game threads, stores the flag, locks, notifies and joins
  the poller.
\<close>

definition schedShutdown :: "choice list" where
  "schedShutdown =
     [SignalStep, WorkerStep 0 InvokeCallback, WorkerStep 1 InvokeCallback,
      PollerStep envNone True, PollerStep envNone True, PollerStep envNone True,
      MainStep, MainStep, MainStep, MainStep, MainStep]"

definition cleanExit :: sys where
  "cleanExit = run sampleCfg schedShutdown sampleStart"

text \<open>
  A ceiling of one game and two game threads: thread 0 draws index 0, thread 1 draws
  index 1, which has reached the ceiling, and is about to call \<^verbatim>\<open>countOneGameStarted\<close>.
\<close>

definition ceilCfg :: config where
  "ceilCfg = \<lparr>numGameThreads = 2, numSearchThreads = 3, maxGamesTotal = 1, switchNetsMidGame = True\<rparr>"

definition schedCeiling :: "choice list" where
  "schedCeiling =
     [WorkerStep 0 InvokeCallback, WorkerStep 0 InvokeCallback, WorkerStep 0 InvokeCallback,
      WorkerStep 1 InvokeCallback, WorkerStep 1 InvokeCallback, WorkerStep 1 InvokeCallback]"

definition atCeiling :: sys where
  "atCeiling = run ceilCfg schedCeiling sampleStart"

text \<open>
  From there thread 1 counts a started game, finds its index at the ceiling, releases
  the net and ends; then thread 0 calls \<^verbatim>\<open>runGame\<close> with index 0.
\<close>

definition schedPastCeiling :: "choice list" where
  "schedPastCeiling =
     [WorkerStep 1 InvokeCallback, WorkerStep 1 InvokeCallback, WorkerStep 1 InvokeCallback,
      WorkerStep 0 InvokeCallback]"

definition pastCeiling :: sys where
  "pastCeiling = run ceilCfg (schedCeiling @ schedPastCeiling) sampleStart"

text \<open>
  Game thread 0 is inside the callback and has acquired the first net; before it goes on,
  the poller loads a second net.
\<close>

definition callbackDuringLoad :: sys where
  "callbackDuringLoad = run sampleCfg (schedInGame @ schedCallback @ schedLoadNet2) sampleStart"

text \<open>
  After the swap to the second net the game of thread 0 returns data 7 (the thread is at
  line 284); then the data is enqueued (the thread is at line 287).
\<close>

definition schedSwapReturn :: "choice list" where
  "schedSwapReturn =
     [WorkerStep 0 InvokeCallback, WorkerStep 0 InvokeCallback,
      WorkerStep 0 (GameReturns (Some 7))]"

definition gameReturned :: sys where
  "gameReturned = run sampleCfg (schedInGame @ schedLoadNet2 @ schedSwapReturn) sampleStart"

definition schedSwapEnqueue :: "choice list" where
  "schedSwapEnqueue =
     [WorkerStep 0 InvokeCallback, WorkerStep 0 InvokeCallback,
      WorkerStep 0 (GameReturns (Some 7)), WorkerStep 0 InvokeCallback]"

definition gameEnqueued :: sys where
  "gameEnqueued = run sampleCfg (schedInGame @ schedLoadNet2 @ schedSwapEnqueue) sampleStart"

section \<open>Evaluating steps\<close>

lemmas step_defs = sysStep_def workerStep_def pollerStep_def mainStep_def signalHandler_def
  w_checkStop_def w_acquire_def w_fetchIdx_def w_countStarted_def w_inGame_def w_callback_def
  w_enqueue_def w_release_def sweepStep_def setPpc_def setWorker_def logEvents_def abort_def
  cbDecide_def

lemmas mgr_defs = acquireLatest_def release_def destroyHandle_def loadModelAndStartDataWriting_def
  scheduleCleanupModelWhenFree_def getLatestModelName_def modelNames_def countOneGameStarted_def
  enqueueDataToWrite_def emptyManager_def

lemmas sample_defs = sampleCfg_def envFound_def envNone_def sampleStart_def startThreads_def
  initWorker_def schedToLoad_def schedInGame_def schedLoadNet2_def schedStopOneNet_def
  schedStopTwoNets_def schedDrain_def atLoad_def inGame_def inGameNewNet_def shutdownOneNet_def
  shutdownTwoNets_def firstNetDrained_def schedCallback_def inCallback_def schedSwapFinish_def
  swappedFinished_def schedShutdown_def cleanExit_def ceilCfg_def schedCeiling_def atCeiling_def
  schedPastCeiling_def pastCeiling_def callbackDuringLoad_def schedSwapReturn_def
  gameReturned_def schedSwapEnqueue_def gameEnqueued_def

lemmas eval_defs = loadLatestNeuralNetIntoManager_def makeDirsLoop.simps attemptDirs_def
  maxConcurrentEvals_def sizeMinusOne_def wrap64_def

lemma run_Nil: "run cfg [] s = s"
  by (simp add: run_def)

lemma run_Cons: "run cfg (c # cs) s = run cfg cs (sysStep cfg s c)"
  by (simp add: run_def)

lemma run_append: "run cfg (cs @ ds) s = run cfg ds (run cfg cs s)"
  by (simp add: run_def)

lemma run_snoc: "run cfg (cs @ [c]) s = sysStep cfg (run cfg cs s) c"
  by (simp add: run_def)

lemma atLoad_facts:
  "aborted atLoad = None" "ppc (pollerSt atLoad) = P_Load"
  "lastNetName (pollerSt atLoad) = ''net1''" "\<not> shouldStop atLoad"
  "modelLoadMutex atLoad = None" "getLatestModelName (mgr atLoad) = ''net1''"
  by (simp_all add: sample_defs run_Cons run_Nil step_defs mgr_defs)

lemma selfplay_sample: "selfplay sampleCfg (envFound ''net1'' True) = Inr sampleStart"
  by (simp add: selfplay_def loadLatestNeuralNetIntoManager_def envFound_def sampleCfg_def
      sampleStart_def makeDirsLoop.simps attemptDirs_def maxConcurrentEvals_def)

section \<open>The loader\<close>

lemma sint_budget:
  assumes n: "numGameThreads cfg \<le> 16384"
    and lo: "- (2 ^ 31) \<le> sint (numSearchThreads cfg) * int (numGameThreads cfg) * 2"
    and hi: "sint (numSearchThreads cfg) * int (numGameThreads cfg) * 2 + 16 < 2 ^ 31"
  shows "sint (maxConcurrentEvals cfg) = sint (numSearchThreads cfg) * int (numGameThreads cfg) * 2 + 16"
proof -
  define p where "p = sint (numSearchThreads cfg) * int (numGameThreads cfg)"
  have lo': "- (2 ^ 31) \<le> p * 2" and hi': "p * 2 + 16 < 2 ^ 31"
    using lo hi by (simp_all only: p_def)
  have r1: "- (2 ^ 31) \<le> p" "p < 2 ^ 31"
    and r2: "- (2 ^ 31) \<le> p * 2" "p * 2 < 2 ^ 31"
    and r3: "- (2 ^ 31) \<le> p * 2 + 16" "p * 2 + 16 < 2 ^ 31"
    using lo' hi' by linarith+
  have sn: "sint (of_nat (numGameThreads cfg) :: 32 word) = int (numGameThreads cfg)"
    using n by (simp add: signed_of_nat signed_take_bit_int_eq_self)
  have ab: "sint (numSearchThreads cfg * of_nat (numGameThreads cfg)) = p"
    unfolding p_def[symmetric] sint_word_mult sn
    using r1 by (simp add: p_def[symmetric] signed_take_bit_int_eq_self)
  have two: "sint (2 :: 32 word) = 2"
    by simp
  have ab2: "sint (numSearchThreads cfg * of_nat (numGameThreads cfg) * 2) = p * 2"
    unfolding sint_word_mult[of _ 2] ab two
    using r2 by (simp add: signed_take_bit_int_eq_self)
  have sixteen: "sint (16 :: 32 word) = 16"
    by simp
  have "sint (maxConcurrentEvals cfg) = p * 2 + 16"
    unfolding maxConcurrentEvals_def sint_word_ariths(1) ab2 sixteen
    using r3 by (simp add: signed_take_bit_int_eq_self)
  then show ?thesis
    by (simp add: p_def)
qed

lemma makeDirsLoop_props:
  "i < n \<Longrightarrow>
     length (filter isAttempt (snd (makeDirsLoop env n i))) \<le> n - i \<and>
     length (filter isSleep (snd (makeDirsLoop env n i))) + 1 =
       length (filter isAttempt (snd (makeDirsLoop env n i))) \<and>
     (fst (makeDirsLoop env n i) \<longleftrightarrow> (\<exists>j. i \<le> j \<and> j < n \<and> attemptDirs env j)) \<and>
     (\<not> fst (makeDirsLoop env n i) \<longrightarrow> length (filter isAttempt (snd (makeDirsLoop env n i))) = n - i) \<and>
     successively (sleepBetween env) (snd (makeDirsLoop env n i)) \<and>
     (\<exists>ok es. snd (makeDirsLoop env n i) = EvMakeDirs i ok # es)"
proof (induction env n i rule: makeDirsLoop.induct)
  case (1 env maxTries i)
  show ?case
  proof (cases "attemptDirs env i")
    case True
    then show ?thesis using "1.prems"
      by (subst (1 2 3 4 5 6 7 8) makeDirsLoop.simps) auto
  next
    case False
    show ?thesis
    proof (cases "i = maxTries - 1")
      case True
      have "\<And>j. i \<le> j \<Longrightarrow> j < maxTries \<Longrightarrow> j = i" using True by simp
      then show ?thesis using "1.prems" False True
        by (subst (1 2 3 4 5 6 7 8) makeDirsLoop.simps) auto
    next
      case ne: False
      then have lt: "i + 1 < maxTries" using "1.prems" by simp
      note ih = "1.IH"[OF "1.prems" False ne lt]
      from ih obtain ok es where es: "snd (makeDirsLoop env maxTries (i + 1)) = EvMakeDirs (i + 1) ok # es"
        by blast
      have ex: "(\<exists>j. i \<le> j \<and> j < maxTries \<and> attemptDirs env j) \<longleftrightarrow> (\<exists>j. i + 1 \<le> j \<and> j < maxTries \<and> attemptDirs env j)"
        using False by (metis Suc_eq_plus1 Suc_leI le_neq_implies_less nat_le_linear not_less_eq_eq)
      have unf: "makeDirsLoop env maxTries i =
          (fst (makeDirsLoop env maxTries (i + 1)),
           EvMakeDirs i False # EvSleep (10 + randDouble env i * 30)
             # snd (makeDirsLoop env maxTries (i + 1)))"
        using "1.prems" False ne by (subst makeDirsLoop.simps) simp
      have a: "length (filter isAttempt (snd (makeDirsLoop env maxTries (i + 1)))) \<le> maxTries - (i + 1)"
        and b: "length (filter isSleep (snd (makeDirsLoop env maxTries (i + 1)))) + 1 =
                length (filter isAttempt (snd (makeDirsLoop env maxTries (i + 1))))"
        and c: "fst (makeDirsLoop env maxTries (i + 1)) \<longleftrightarrow>
                (\<exists>j. i + 1 \<le> j \<and> j < maxTries \<and> attemptDirs env j)"
        and d: "\<not> fst (makeDirsLoop env maxTries (i + 1)) \<longrightarrow>
                length (filter isAttempt (snd (makeDirsLoop env maxTries (i + 1)))) = maxTries - (i + 1)"
        and e: "successively (sleepBetween env) (snd (makeDirsLoop env maxTries (i + 1)))"
        using ih by blast+
      have 1: "length (filter isAttempt (snd (makeDirsLoop env maxTries i))) \<le> maxTries - i"
        using a lt by (simp add: unf)
      have 2: "length (filter isSleep (snd (makeDirsLoop env maxTries i))) + 1 =
               length (filter isAttempt (snd (makeDirsLoop env maxTries i)))"
        using b by (simp add: unf)
      have 3: "fst (makeDirsLoop env maxTries i) \<longleftrightarrow> (\<exists>j. i \<le> j \<and> j < maxTries \<and> attemptDirs env j)"
        using c ex by (simp add: unf)
      have 4: "\<not> fst (makeDirsLoop env maxTries i) \<longrightarrow>
               length (filter isAttempt (snd (makeDirsLoop env maxTries i))) = maxTries - i"
        using d lt by (auto simp add: unf)
      have 5: "successively (sleepBetween env) (snd (makeDirsLoop env maxTries i))"
      proof -
        have "successively (sleepBetween env) (EvMakeDirs (i + 1) ok # es)"
          using e by (simp only: es)
        then show ?thesis
          unfolding unf snd_conv es by (simp add: sleepBetween_def)
      qed
      have 6: "\<exists>ok es. snd (makeDirsLoop env maxTries i) = EvMakeDirs i ok # es"
        unfolding unf by auto
      show ?thesis
        using 1 2 3 4 5 6 by blast
    qed
  qed
qed

lemma load_not_found:
  "foundModel env = None \<Longrightarrow>
   loadLatestNeuralNetIntoManager cfg env lastNet m = \<lparr>loadOK = False, loadedMgr = m, loadEvents = []\<rparr>"
  by (simp add: loadLatestNeuralNetIntoManager_def)

lemma load_dirs_fail:
  assumes "foundModel env = Some name" "\<forall>i<5. \<not> attemptDirs env i"
  shows "\<not> loadOK (loadLatestNeuralNetIntoManager cfg env lastNet m) \<and>
         loadedMgr (loadLatestNeuralNetIntoManager cfg env lastNet m) = m"
proof -
  have "\<not> fst (makeDirsLoop env 5 0)"
    using makeDirsLoop_props[of 0 5 env] assms(2) by auto
  then show ?thesis
    using assms(1) by (simp add: loadLatestNeuralNetIntoManager_def Let_def)
qed

lemma load_fail_mgr:
  "\<not> loadOK (loadLatestNeuralNetIntoManager cfg env lastNet m) \<Longrightarrow>
   loadedMgr (loadLatestNeuralNetIntoManager cfg env lastNet m) = m"
  by (simp add: loadLatestNeuralNetIntoManager_def Let_def split: option.splits if_splits)

lemma poll_failed_load:
  assumes "aborted s = None" "ppc (pollerSt s) = P_Load"
    and "\<not> loadOK (loadLatestNeuralNetIntoManager cfg env (Some (lastNetName (pollerSt s))) (mgr s))"
  shows "aborted (sysStep cfg s (PollerStep env b)) = None \<and>
         mgr (sysStep cfg s (PollerStep env b)) = mgr s \<and>
         shouldStop (sysStep cfg s (PollerStep env b)) = shouldStop s \<and>
         modelLoadMutex (sysStep cfg s (PollerStep env b)) = modelLoadMutex s \<and>
         ppc (pollerSt (sysStep cfg s (PollerStep env b))) = P_CheckStop2"
  using assms load_fail_mgr[OF assms(3)]
  by (simp add: sysStep_def pollerStep_def Let_def logEvents_def setPpc_def)

text \<open>From line 315 round the loop to the next call of the loader.\<close>

lemma poll_next_cycle:
  assumes "aborted s = None" "ppc (pollerSt s) = P_CheckStop2" "\<not> shouldStop s"
    and "modelLoadMutex s = None"
  shows "aborted (run cfg (replicate 7 (PollerStep env True)) s) = None \<and>
         mgr (run cfg (replicate 7 (PollerStep env True)) s) = mgr s \<and>
         ppc (pollerSt (run cfg (replicate 7 (PollerStep env True)) s)) = P_Load \<and>
         lastNetName (pollerSt (run cfg (replicate 7 (PollerStep env True)) s)) = getLatestModelName (mgr s)"
  using assms
  by (simp add: run_def numeral_eq_Suc sysStep_def pollerStep_def setPpc_def)

lemma load_events:
  assumes "foundModel env = Some name" "lastNet \<noteq> Some name"
  shows "loadEvents (loadLatestNeuralNetIntoManager cfg env lastNet m) =
           EvInitNNEval name (maxConcurrentEvals cfg) # snd (makeDirsLoop env 5 0) @
             (if loadOK (loadLatestNeuralNetIntoManager cfg env lastNet m) then [EvLoadModel name] else [])"
    and "loadOK (loadLatestNeuralNetIntoManager cfg env lastNet m) = fst (makeDirsLoop env 5 0)"
  using assms by (simp_all add: loadLatestNeuralNetIntoManager_def Let_def)

lemma poll_load_step:
  assumes "aborted s = None" "ppc (pollerSt s) = P_Load"
  shows "trace (sysStep cfg s (PollerStep env b)) =
           trace s @ map (Pair Poller)
             (loadEvents (loadLatestNeuralNetIntoManager cfg env (Some (lastNetName (pollerSt s))) (mgr s)))"
  using assms by (simp add: sysStep_def pollerStep_def Let_def logEvents_def setPpc_def)

text \<open>
  C7. On a poll cycle that finds a new model, the directories are attempted at most five
  times, each failed attempt but the last is followed by one sleep of \<open>10 + 30 r\<close> seconds
  with \<open>r\<close> drawn from the random generator, and nothing else happens in between. If
  all five attempts fail the loader returns \<open>false\<close>: no exception leaves it, the process
  is not aborted, the manager is unchanged and the poller goes on to line 315; seven steps
  later it calls the loader again, which starts on the same model again.
\<close>

theorem dirs_retried_at_most_five_times:
  assumes run: "aborted s = None" "ppc (pollerSt s) = P_Load"
    and found: "foundModel env = Some name" "lastNetName (pollerSt s) \<noteq> name"
  shows
    "(let r = loadLatestNeuralNetIntoManager cfg env (Some (lastNetName (pollerSt s))) (mgr s);
          dirs = snd (makeDirsLoop env 5 0);
          s1 = sysStep cfg s (PollerStep env b)
      in loadEvents r =
           EvInitNNEval name (maxConcurrentEvals cfg) # dirs @ (if loadOK r then [EvLoadModel name] else []) \<and>
         length (filter isAttempt dirs) \<le> 5 \<and>
         length (filter isSleep dirs) + 1 = length (filter isAttempt dirs) \<and>
         successively (sleepBetween env) dirs \<and>
         ((\<forall>i<5. \<not> attemptDirs env i) \<longrightarrow>
            \<not> loadOK r \<and> length (filter isAttempt dirs) = 5 \<and>
            aborted s1 = None \<and> mgr s1 = mgr s \<and> ppc (pollerSt s1) = P_CheckStop2 \<and>
            (\<not> shouldStop s \<and> modelLoadMutex s = None \<and> getLatestModelName (mgr s) \<noteq> name \<and>
             foundModel env2 = Some name \<longrightarrow>
               (let s2 = run cfg (replicate 7 (PollerStep env True)) s1;
                    s3 = sysStep cfg s2 (PollerStep env2 b2)
                in \<exists>ok rest. trace s3 =
                     trace s2 @ (Poller, EvInitNNEval name (maxConcurrentEvals cfg))
                       # (Poller, EvMakeDirs 0 ok) # rest))))"
proof -
  let ?r = "loadLatestNeuralNetIntoManager cfg env (Some (lastNetName (pollerSt s))) (mgr s)"
  let ?dirs = "snd (makeDirsLoop env 5 0)"
  let ?s1 = "sysStep cfg s (PollerStep env b)"
  have ne: "Some (lastNetName (pollerSt s)) \<noteq> Some name"
    using found(2) by simp
  note ev = load_events[OF found(1) ne, of cfg "mgr s"]
  have props: "length (filter isAttempt ?dirs) \<le> 5"
      "length (filter isSleep ?dirs) + 1 = length (filter isAttempt ?dirs)"
      "successively (sleepBetween env) ?dirs"
    using makeDirsLoop_props[of 0 5 env] by simp_all
  have fail: "\<not> loadOK ?r \<and> length (filter isAttempt ?dirs) = 5 \<and>
            aborted ?s1 = None \<and> mgr ?s1 = mgr s \<and> ppc (pollerSt ?s1) = P_CheckStop2 \<and>
            (\<not> shouldStop s \<and> modelLoadMutex s = None \<and> getLatestModelName (mgr s) \<noteq> name \<and>
             foundModel env2 = Some name \<longrightarrow>
               (\<exists>ok rest. trace (sysStep cfg (run cfg (replicate 7 (PollerStep env True)) ?s1) (PollerStep env2 b2)) =
                     trace (run cfg (replicate 7 (PollerStep env True)) ?s1) @ (Poller, EvInitNNEval name (maxConcurrentEvals cfg))
                       # (Poller, EvMakeDirs 0 ok) # rest))"
    if allfail: "\<forall>i<5. \<not> attemptDirs env i"
  proof -
    have nf: "\<not> fst (makeDirsLoop env 5 0)"
      using makeDirsLoop_props[of 0 5 env] allfail by auto
    then have nok: "\<not> loadOK ?r"
      using ev(2) by simp
    have five: "length (filter isAttempt ?dirs) = 5"
      using makeDirsLoop_props[of 0 5 env] nf by simp
    note st = poll_failed_load[OF run nok, of b]
    have retry: "\<exists>ok rest. trace (sysStep cfg (run cfg (replicate 7 (PollerStep env True)) ?s1) (PollerStep env2 b2)) =
                     trace (run cfg (replicate 7 (PollerStep env True)) ?s1) @ (Poller, EvInitNNEval name (maxConcurrentEvals cfg))
                       # (Poller, EvMakeDirs 0 ok) # rest"
      if h: "\<not> shouldStop s" "modelLoadMutex s = None" "getLatestModelName (mgr s) \<noteq> name"
         "foundModel env2 = Some name"
    proof -
      let ?s2 = "run cfg (replicate 7 (PollerStep env True)) ?s1"
      have c: "aborted ?s2 = None" "mgr ?s2 = mgr s" "ppc (pollerSt ?s2) = P_Load"
          "lastNetName (pollerSt ?s2) = getLatestModelName (mgr s)"
        using poll_next_cycle[of ?s1 cfg env] st h by simp_all
      have ne2: "Some (lastNetName (pollerSt ?s2)) \<noteq> Some name"
        using c(4) h(3) by simp
      obtain ok es where es: "snd (makeDirsLoop env2 5 0) = EvMakeDirs 0 ok # es"
        using makeDirsLoop_props[of 0 5 env2] by auto
      show ?thesis
        unfolding poll_load_step[OF c(1) c(3)] load_events(1)[OF h(4) ne2] es
        by simp
    qed
    show ?thesis
      using nok five st retry by blast
  qed
  show ?thesis
    unfolding Let_def using ev(1) props fail by blast
qed

theorem dirs_retried_at_most_five_times_witness:
  "aborted atLoad = None \<and> ppc (pollerSt atLoad) = P_Load \<and>
   foundModel (envFound ''net2'' False) = Some ''net2'' \<and> lastNetName (pollerSt atLoad) \<noteq> ''net2'' \<and>
   length (filter isAttempt (snd (makeDirsLoop (envFound ''net2'' False) 5 0))) = 5 \<and>
   length (filter isSleep (snd (makeDirsLoop (envFound ''net2'' False) 5 0))) = 4 \<and>
   \<not> loadOK (loadLatestNeuralNetIntoManager sampleCfg (envFound ''net2'' False)
              (Some (lastNetName (pollerSt atLoad))) (mgr atLoad)) \<and>
   aborted (sysStep sampleCfg atLoad (PollerStep (envFound ''net2'' False) True)) = None \<and>
   ppc (pollerSt (sysStep sampleCfg atLoad (PollerStep (envFound ''net2'' False) True))) = P_CheckStop2"
proof -
  have h: "aborted atLoad = None" "ppc (pollerSt atLoad) = P_Load"
      "foundModel (envFound ''net2'' False) = Some ''net2''" "lastNetName (pollerSt atLoad) \<noteq> ''net2''"
    by (simp_all add: atLoad_facts envFound_def)
  have allfail: "\<forall>i<5. \<not> attemptDirs (envFound ''net2'' False) i"
    by (simp add: attemptDirs_def envFound_def)
  show ?thesis
    using h allfail
      dirs_retried_at_most_five_times[OF h, of sampleCfg True "envFound ''net2'' True" True]
    by (simp add: Let_def)
qed

text \<open>
  C8. If the first load finds no model, or none of its five attempts to make the
  directories succeeds, \<^verbatim>\<open>selfplay\<close> throws \<^verbatim>\<open>StringError\<close> and no thread is ever started
  (the result is the error, not a state of the threads). The same failure in the
  poller leaves the process running and the manager unchanged: the poller goes on to
  line 315 and, unless told to stop, is back at the loader seven steps later.
\<close>

theorem startup_failure_is_fatal:
  assumes "foundModel env = None \<or> (\<forall>i<5. \<not> attemptDirs env i)"
  shows "(\<exists>msg. selfplay cfg env = Inl (StringError msg)) \<and>
         (\<forall>s b. aborted s = None \<and> ppc (pollerSt s) = P_Load \<longrightarrow>
            (let s1 = sysStep cfg s (PollerStep env b)
             in aborted s1 = None \<and> mgr s1 = mgr s \<and> ppc (pollerSt s1) = P_CheckStop2 \<and>
                (\<not> shouldStop s \<and> modelLoadMutex s = None \<longrightarrow>
                   aborted (run cfg (replicate 7 (PollerStep env True)) s1) = None \<and>
                   ppc (pollerSt (run cfg (replicate 7 (PollerStep env True)) s1)) = P_Load)))"
proof -
  have nok: "\<not> loadOK (loadLatestNeuralNetIntoManager cfg env lastNet m)" for lastNet m
  proof (cases "foundModel env")
    case None
    then show ?thesis by (simp add: load_not_found)
  next
    case (Some name)
    with assms have "\<forall>i<5. \<not> attemptDirs env i" by simp
    then show ?thesis using load_dirs_fail[OF Some] by blast
  qed
  have start: "\<exists>msg. selfplay cfg env = Inl (StringError msg)"
    using nok[of None emptyManager] by (simp add: selfplay_def Let_def)
  have poll: "aborted (sysStep cfg s (PollerStep env b)) = None \<and>
      mgr (sysStep cfg s (PollerStep env b)) = mgr s \<and>
      ppc (pollerSt (sysStep cfg s (PollerStep env b))) = P_CheckStop2 \<and>
      (\<not> shouldStop s \<and> modelLoadMutex s = None \<longrightarrow>
         aborted (run cfg (replicate 7 (PollerStep env True)) (sysStep cfg s (PollerStep env b))) = None \<and>
         ppc (pollerSt (run cfg (replicate 7 (PollerStep env True)) (sysStep cfg s (PollerStep env b)))) = P_Load)"
    if h: "aborted s = None" "ppc (pollerSt s) = P_Load" for s b
  proof -
    note st = poll_failed_load[OF h nok, of b]
    show ?thesis
      using st poll_next_cycle[of "sysStep cfg s (PollerStep env b)" cfg env] by simp
  qed
  show ?thesis
    unfolding Let_def using start poll by blast
qed

theorem startup_failure_is_fatal_witness:
  "\<not> attemptDirs (envFound ''net2'' False) 0 \<and> \<not> attemptDirs (envFound ''net2'' False) 1 \<and>
   \<not> attemptDirs (envFound ''net2'' False) 2 \<and> \<not> attemptDirs (envFound ''net2'' False) 3 \<and>
   \<not> attemptDirs (envFound ''net2'' False) 4 \<and>
   selfplay sampleCfg (envFound ''net2'' False) =
     Inl (StringError ''Either could not load latest neural net or access/write appopriate directories'') \<and>
   aborted atLoad = None \<and> ppc (pollerSt atLoad) = P_Load \<and>
   aborted (sysStep sampleCfg atLoad (PollerStep (envFound ''net2'' False) True)) = None \<and>
   ppc (pollerSt (sysStep sampleCfg atLoad (PollerStep (envFound ''net2'' False) True))) = P_CheckStop2 \<and>
   ppc (pollerSt (run sampleCfg (replicate 7 (PollerStep (envFound ''net2'' False) True))
          (sysStep sampleCfg atLoad (PollerStep (envFound ''net2'' False) True)))) = P_Load"
proof -
  have allfail: "\<forall>i<5. \<not> attemptDirs (envFound ''net2'' False) i"
    by (simp add: attemptDirs_def envFound_def)
  then have h: "foundModel (envFound ''net2'' False) = None \<or> (\<forall>i<5. \<not> attemptDirs (envFound ''net2'' False) i)"
    by simp
  have msg: "selfplay sampleCfg (envFound ''net2'' False) = Inl (StringError m) \<Longrightarrow>
    selfplay sampleCfg (envFound ''net2'' False) =
     Inl (StringError ''Either could not load latest neural net or access/write appopriate directories'')" for m
    by (simp add: selfplay_def Let_def split: if_splits)
  show ?thesis
    using allfail startup_failure_is_fatal[OF h, of sampleCfg] atLoad_facts msg
    by (auto simp: Let_def)
qed

text \<open>
  C9, as stated, fails: with 65536 search threads and 16384 game threads the load
  succeeds and the budget passed to the evaluator is \<open>-2147483632\<close>, not
  \<open>65536 * 16384 * 2 + 16 = 2147483664\<close>, because line 144 computes in 32-bit \<^verbatim>\<open>int\<close>.
\<close>

theorem budget_wraps_counterexample:
  "loadOK (loadLatestNeuralNetIntoManager bigCfg (envFound ''net1'' True) None emptyManager) \<and>
   hd (loadEvents (loadLatestNeuralNetIntoManager bigCfg (envFound ''net1'' True) None emptyManager)) =
     EvInitNNEval ''net1'' (maxConcurrentEvals bigCfg) \<and>
   numGameThreads bigCfg = 16384 \<and> sint (numSearchThreads bigCfg) = 65536 \<and>
   sint (maxConcurrentEvals bigCfg) = - 2147483632 \<and>
   sint (numSearchThreads bigCfg) * int (numGameThreads bigCfg) * 2 + 16 = 2147483664"
  by (simp add: loadLatestNeuralNetIntoManager_def envFound_def bigCfg_def makeDirsLoop.simps
      attemptDirs_def maxConcurrentEvals_def)

text \<open>
  C9, amended. For every successful load the budget passed to the evaluator is
  \<^verbatim>\<open>numSearchThreads * numGameThreads * 2 + 16\<close> exactly, provided that this value and
  the product before the addition lie in the range of a 32-bit \<^verbatim>\<open>int\<close> (the number of
  game threads is at most 16384 by line 85).
\<close>

theorem budget_exact_within_int:
  assumes ok: "loadOK (loadLatestNeuralNetIntoManager cfg env lastNet m)"
    and n: "numGameThreads cfg \<le> 16384"
    and lo: "- (2 ^ 31) \<le> sint (numSearchThreads cfg) * int (numGameThreads cfg) * 2"
    and hi: "sint (numSearchThreads cfg) * int (numGameThreads cfg) * 2 + 16 < 2 ^ 31"
  shows "\<exists>name rest. foundModel env = Some name \<and>
           loadEvents (loadLatestNeuralNetIntoManager cfg env lastNet m) =
             EvInitNNEval name (maxConcurrentEvals cfg) # rest \<and>
           sint (maxConcurrentEvals cfg) =
             sint (numSearchThreads cfg) * int (numGameThreads cfg) * 2 + 16"
proof -
  from ok obtain name where f: "foundModel env = Some name" and ne: "lastNet \<noteq> Some name"
    by (auto simp: loadLatestNeuralNetIntoManager_def split: option.splits if_splits)
  show ?thesis
    using load_events(1)[OF f ne, of cfg m] f sint_budget[OF n lo hi] by simp
qed

theorem budget_exact_within_int_witness:
  "loadOK (loadLatestNeuralNetIntoManager sampleCfg (envFound ''net1'' True) None emptyManager) \<and>
   numGameThreads sampleCfg \<le> 16384 \<and>
   - (2 ^ 31) \<le> sint (numSearchThreads sampleCfg) * int (numGameThreads sampleCfg) * 2 \<and>
   sint (numSearchThreads sampleCfg) * int (numGameThreads sampleCfg) * 2 + 16 < 2 ^ 31 \<and>
   sint (maxConcurrentEvals sampleCfg) = 28"
proof -
  have h: "loadOK (loadLatestNeuralNetIntoManager sampleCfg (envFound ''net1'' True) None emptyManager)"
      "numGameThreads sampleCfg \<le> 16384"
      "- (2 ^ 31) \<le> sint (numSearchThreads sampleCfg) * int (numGameThreads sampleCfg) * 2"
      "sint (numSearchThreads sampleCfg) * int (numGameThreads sampleCfg) * 2 + 16 < 2 ^ 31"
    by (simp_all add: loadLatestNeuralNetIntoManager_def envFound_def sampleCfg_def
        makeDirsLoop.simps attemptDirs_def)
  have v: "sint (numSearchThreads sampleCfg) * int (numGameThreads sampleCfg) * 2 + 16 = 28"
    by (simp add: sampleCfg_def)
  show ?thesis
    using h budget_exact_within_int[OF h] v by auto
qed

section \<open>The callback\<close>

lemma acquireLatest_Some:
  assumes "acquireLatest m = (Some new, m1)"
  shows "new \<in> set (handles m)" "\<not> retiring m new" "new = last (handles m)"
    "m1 = m\<lparr>refCount := (refCount m)(new := refCount m new + 1)\<rparr>"
  using assms by (auto simp: acquireLatest_def Let_def split: if_splits)

lemma callback_same:
  assumes acq: "acquireLatest m = (Some new, m1)"
  shows "checkForNewNNEval new m = Inr (m, new, None)"
proof -
  note a = acquireLatest_Some[OF acq]
  have "release new m1 = Inr m"
    using a(1,2) by (simp add: a(4) release_def Let_def)
  then show ?thesis
    by (simp add: checkForNewNNEval_def acq cbDecide_def)
qed

lemma callback_differs:
  assumes acq: "acquireLatest m = (Some new, m1)" and live: "cur \<in> set (handles m)"
    and ne: "new \<noteq> cur"
  shows "\<exists>m'. checkForNewNNEval cur m = Inr (m', new, Some new) \<and>
           refCount m' new = refCount m new + 1 \<and> refCount m' cur = refCount m cur - 1 \<and>
           (\<forall>h. h \<noteq> new \<and> h \<noteq> cur \<longrightarrow> refCount m' h = refCount m h)"
proof -
  note a = acquireLatest_Some[OF acq]
  show ?thesis
    using live ne
    by (simp add: checkForNewNNEval_def acq cbDecide_def a(4) release_def Let_def destroyHandle_def)
qed

lemma callback_steps:
  assumes acq: "acquireLatest (mgr s) = (Some new, m1)"
    and run: "aborted s = None" "t < numGameThreads cfg" "wpc (workers s t) = W_InGame"
      "switchNetsMidGame cfg"
    and res: "checkForNewNNEval (nnEval (workers s t)) (mgr s) = Inr (m', cur', ret)"
  shows "mgr (run cfg [WorkerStep t InvokeCallback, WorkerStep t e] s) = m' \<and>
         nnEval (workers (run cfg [WorkerStep t InvokeCallback, WorkerStep t e] s) t) = cur' \<and>
         wpc (workers (run cfg [WorkerStep t InvokeCallback, WorkerStep t e] s) t) = W_InGame \<and>
         trace (run cfg [WorkerStep t InvokeCallback, WorkerStep t e] s) =
           trace s @ map (Pair (Worker t))
             [EvAcquire new, EvRelease (if new = nnEval (workers s t) then new else nnEval (workers s t)),
              EvCallbackReturned ret]"
proof -
  let ?s1 = "sysStep cfg s (WorkerStep t InvokeCallback)"
  have s1: "?s1 = logEvents (Worker t) [EvAcquire new]
                   (setWorker t ((workers s t)\<lparr>wpc := W_Callback new\<rparr>) (s\<lparr>mgr := m1\<rparr>))"
    using run acq by (simp add: sysStep_def workerStep_def w_inGame_def)
  have d: "cbDecide (nnEval (workers s t)) new m1 = Inr (m', cur', ret)"
    using res by (simp add: checkForNewNNEval_def acq)
  have r: "run cfg [WorkerStep t InvokeCallback, WorkerStep t e] s =
           sysStep cfg (logEvents (Worker t) [EvAcquire new]
                   (setWorker t ((workers s t)\<lparr>wpc := W_Callback new\<rparr>) (s\<lparr>mgr := m1\<rparr>)))
             (WorkerStep t e)"
    by (simp only: run_Cons run_Nil s1)
  show ?thesis
    unfolding r using run d
    by (simp add: sysStep_def workerStep_def w_callback_def logEvents_def setWorker_def)
qed

lemma inGame_facts:
  "aborted inGame = None" "wpc (workers inGame 0) = W_InGame" "nnEval (workers inGame 0) = 0"
  "handles (mgr inGame) = [0]" "refCount (mgr inGame) 0 = 1"
  "acquireLatest (mgr inGame) = (Some 0, (mgr inGame)\<lparr>refCount := (refCount (mgr inGame))(0 := 2)\<rparr>)"
  by (simp_all add: sample_defs run_Cons run_Nil step_defs mgr_defs eval_defs)

lemma inGameNewNet_facts:
  "aborted inGameNewNet = None" "wpc (workers inGameNewNet 0) = W_InGame"
  "nnEval (workers inGameNewNet 0) = 0" "handles (mgr inGameNewNet) = [0, 1]"
  "refCount (mgr inGameNewNet) 0 = 1" "refCount (mgr inGameNewNet) 1 = 0"
  "acquireLatest (mgr inGameNewNet) =
     (Some 1, (mgr inGameNewNet)\<lparr>refCount := (refCount (mgr inGameNewNet))(1 := 1)\<rparr>)"
  by (simp_all add: sample_defs run_Cons run_Nil step_defs mgr_defs eval_defs)

section \<open>What a step changes\<close>

lemma sysStep_cases:
  assumes "P s"
    and "\<And>t. \<lbrakk>aborted s = None; t < numGameThreads cfg; wpc (workers s t) = W_CheckStop\<rbrakk> \<Longrightarrow> P (w_checkStop t s)"
    and "\<And>t. \<lbrakk>aborted s = None; t < numGameThreads cfg; wpc (workers s t) = W_Acquire\<rbrakk> \<Longrightarrow> P (w_acquire t s)"
    and "\<And>t. \<lbrakk>aborted s = None; t < numGameThreads cfg; wpc (workers s t) = W_FetchIdx\<rbrakk> \<Longrightarrow> P (w_fetchIdx t s)"
    and "\<And>t. \<lbrakk>aborted s = None; t < numGameThreads cfg; wpc (workers s t) = W_CountStarted\<rbrakk> \<Longrightarrow> P (w_countStarted cfg t s)"
    and "\<And>t env. \<lbrakk>aborted s = None; t < numGameThreads cfg; wpc (workers s t) = W_InGame\<rbrakk> \<Longrightarrow> P (w_inGame cfg t env s)"
    and "\<And>t new. \<lbrakk>aborted s = None; t < numGameThreads cfg; wpc (workers s t) = W_Callback new\<rbrakk> \<Longrightarrow> P (w_callback t new s)"
    and "\<And>t. \<lbrakk>aborted s = None; t < numGameThreads cfg; wpc (workers s t) = W_Enqueue\<rbrakk> \<Longrightarrow> P (w_enqueue t s)"
    and "\<And>t. \<lbrakk>aborted s = None; t < numGameThreads cfg; wpc (workers s t) = W_Release\<rbrakk> \<Longrightarrow> P (w_release t s)"
    and "\<And>env b. aborted s = None \<Longrightarrow> P (pollerStep cfg env b s)"
    and "aborted s = None \<Longrightarrow> P (mainStep cfg s)"
    and "aborted s = None \<Longrightarrow> P (signalHandler s)"
  shows "P (sysStep cfg s c)"
proof (cases "aborted s = None")
  case False
  then show ?thesis using assms(1) by (simp add: sysStep_def)
next
  case True
  show ?thesis
  proof (cases c)
    case (WorkerStep t env)
    show ?thesis
    proof (cases "t < numGameThreads cfg")
      case False
      then show ?thesis using assms(1) True WorkerStep by (simp add: sysStep_def)
    next
      case lt: True
      show ?thesis
        using True lt WorkerStep assms(1-9)
        by (cases "wpc (workers s t)") (simp_all add: sysStep_def workerStep_def)
    qed
  next
    case (PollerStep env b)
    then show ?thesis using True assms(10) by (simp add: sysStep_def)
  next
    case MainStep
    then show ?thesis using True assms(11) by (simp add: sysStep_def)
  next
    case SignalStep
    then show ?thesis using True assms(12) by (simp add: sysStep_def)
  qed
qed

lemma logEvents_fields [simp]:
  "mgr (logEvents th es s) = mgr s" "shouldStop (logEvents th es s) = shouldStop s"
  "sigReceived (logEvents th es s) = sigReceived s"
  "numGamesStarted (logEvents th es s) = numGamesStarted s"
  "workers (logEvents th es s) = workers s" "pollerSt (logEvents th es s) = pollerSt s"
  "mainPc (logEvents th es s) = mainPc s" "modelLoadMutex (logEvents th es s) = modelLoadMutex s"
  "aborted (logEvents th es s) = aborted s"
  "trace (logEvents th es s) = trace s @ map (Pair th) es"
  by (simp_all add: logEvents_def)

lemma threadEvents_simps [simp]:
  "threadEvents th [] = []"
  "threadEvents th ((th', e) # tr) = (if th' = th then e # threadEvents th tr else threadEvents th tr)"
  "threadEvents th (tr @ tr') = threadEvents th tr @ threadEvents th tr'"
  "threadEvents th (map (Pair th') es) = (if th' = th then es else [])"
  by (simp_all add: threadEvents_def filter_map comp_def)

lemma setWorker_fields [simp]:
  "mgr (setWorker t w s) = mgr s" "shouldStop (setWorker t w s) = shouldStop s"
  "sigReceived (setWorker t w s) = sigReceived s"
  "numGamesStarted (setWorker t w s) = numGamesStarted s"
  "workers (setWorker t w s) = (workers s)(t := w)" "pollerSt (setWorker t w s) = pollerSt s"
  "mainPc (setWorker t w s) = mainPc s" "modelLoadMutex (setWorker t w s) = modelLoadMutex s"
  "aborted (setWorker t w s) = aborted s" "trace (setWorker t w s) = trace s"
  by (simp_all add: setWorker_def)

lemma setPpc_fields [simp]:
  "mgr (setPpc pc s) = mgr s" "shouldStop (setPpc pc s) = shouldStop s"
  "sigReceived (setPpc pc s) = sigReceived s"
  "numGamesStarted (setPpc pc s) = numGamesStarted s"
  "workers (setPpc pc s) = workers s" "pollerSt (setPpc pc s) = (pollerSt s)\<lparr>ppc := pc\<rparr>"
  "mainPc (setPpc pc s) = mainPc s" "modelLoadMutex (setPpc pc s) = modelLoadMutex s"
  "aborted (setPpc pc s) = aborted s" "trace (setPpc pc s) = trace s"
  by (simp_all add: setPpc_def)

lemma abort_fields [simp]:
  "mgr (abort e s) = mgr s" "shouldStop (abort e s) = shouldStop s"
  "sigReceived (abort e s) = sigReceived s"
  "numGamesStarted (abort e s) = numGamesStarted s"
  "workers (abort e s) = workers s" "pollerSt (abort e s) = pollerSt s"
  "mainPc (abort e s) = mainPc s" "modelLoadMutex (abort e s) = modelLoadMutex s"
  "aborted (abort e s) = Some e" "trace (abort e s) = trace s"
  by (simp_all add: abort_def)


lemma makeDirsLoop_events:
  "e \<in> set (snd (makeDirsLoop env n i)) \<Longrightarrow> isAttempt e \<or> isSleep e"
proof (induction env n i rule: makeDirsLoop.induct)
  case (1 env maxTries i)
  show ?case
  proof (cases "i < maxTries \<and> \<not> attemptDirs env i \<and> i \<noteq> maxTries - 1")
    case True
    then have "makeDirsLoop env maxTries i =
          (fst (makeDirsLoop env maxTries (i + 1)),
           EvMakeDirs i False # EvSleep (10 + randDouble env i * 30)
             # snd (makeDirsLoop env maxTries (i + 1)))"
      by (subst makeDirsLoop.simps) simp
    then show ?thesis
      using "1.prems" "1.IH" True by auto
  next
    case False
    then show ?thesis
      using "1.prems" by (subst (asm) makeDirsLoop.simps) (auto split: if_splits)
  qed
qed

lemma pollerStep_frame:
  "workers (pollerStep cfg env b s) = workers s"
  "numGamesStarted (pollerStep cfg env b s) = numGamesStarted s"
  "shouldStop (pollerStep cfg env b s) = shouldStop s"
  "mainPc (pollerStep cfg env b s) = mainPc s"
  "th \<noteq> Poller \<Longrightarrow> threadEvents th (trace (pollerStep cfg env b s)) = threadEvents th (trace s)"
  by (simp_all add: pollerStep_def sweepStep_def Let_def split: ppc.splits)

lemma runGameIdx_Nil: "isAttempt e \<or> isSleep e \<Longrightarrow> runGameIdx (th, e) = []"
  by (cases e) simp_all

lemma loadEvents_no_runGame:
  "concat (map (\<lambda>e. runGameIdx (Poller, e)) (loadEvents (loadLatestNeuralNetIntoManager cfg env l m))) = []"
  by (auto simp: loadLatestNeuralNetIntoManager_def Let_def runGameIdx_Nil
      dest!: makeDirsLoop_events split: option.splits)

lemma pollerStep_runGameIdxs:
  "runGameIdxs (pollerStep cfg env b s) = runGameIdxs s"
  by (simp add: pollerStep_def sweepStep_def Let_def runGameIdxs_def comp_def
      loadEvents_no_runGame split: ppc.splits)

lemma pollerStep_mgr:
  "mgr (pollerStep cfg env b s) = mgr s \<or>
   (\<exists>n. mgr (pollerStep cfg env b s) = loadModelAndStartDataWriting n (mgr s)) \<or>
   (\<exists>n. mgr (pollerStep cfg env b s) = scheduleCleanupModelWhenFree n (mgr s))"
  by (simp add: pollerStep_def sweepStep_def Let_def loadLatestNeuralNetIntoManager_def
      split: ppc.splits option.splits) blast

lemma mainStep_frame:
  "workers (mainStep cfg s) = workers s"
  "numGamesStarted (mainStep cfg s) = numGamesStarted s"
  "mgr (mainStep cfg s) = mgr s"
  "pollerSt (mainStep cfg s) = pollerSt s"
  "th \<noteq> MainThread \<Longrightarrow> threadEvents th (trace (mainStep cfg s)) = threadEvents th (trace s)"
  "runGameIdxs (mainStep cfg s) = runGameIdxs s"
  by (simp_all add: mainStep_def runGameIdxs_def split: mpc.splits)

lemma signalHandler_frame:
  "workers (signalHandler s) = workers s"
  "numGamesStarted (signalHandler s) = numGamesStarted s"
  "mgr (signalHandler s) = mgr s"
  "pollerSt (signalHandler s) = pollerSt s"
  "mainPc (signalHandler s) = mainPc s"
  "trace (signalHandler s) = trace s"
  "runGameIdxs (signalHandler s) = runGameIdxs s"
  by (simp_all add: signalHandler_def runGameIdxs_def)

section \<open>Reference counts\<close>

lemma mgrOK_D:
  assumes "mgrOK m R"
  shows "distinct (handles m)" "distinct (destroyLog m)"
    "\<And>h. h \<in> set (handles m) \<Longrightarrow> h < nextHandle m"
    "\<And>h. h \<in> set (handles m) \<Longrightarrow> retiring m h \<Longrightarrow> refCount m h \<noteq> 0"
    "\<And>h. h \<in> set (destroyLog m) \<longleftrightarrow> h < nextHandle m \<and> h \<notin> set (handles m)"
    "\<And>h. h \<in> set (destroyLog m) \<Longrightarrow> retiring m h \<and> refCount m h = 0"
    "\<And>h. refCount m h = int (R h)"
    "\<And>h. 0 < R h \<Longrightarrow> h \<in> set (handles m)"
  using assms unfolding mgrOK_def by blast+

lemma mgrOK_I:
  assumes "distinct (handles m)" "distinct (destroyLog m)"
    "\<And>h. h \<in> set (handles m) \<Longrightarrow> h < nextHandle m"
    "\<And>h. h \<in> set (handles m) \<Longrightarrow> retiring m h \<Longrightarrow> refCount m h \<noteq> 0"
    "\<And>h. h \<in> set (destroyLog m) \<longleftrightarrow> h < nextHandle m \<and> h \<notin> set (handles m)"
    "\<And>h. h \<in> set (destroyLog m) \<Longrightarrow> retiring m h \<and> refCount m h = 0"
    "\<And>h. refCount m h = int (R h)"
    "\<And>h. 0 < R h \<Longrightarrow> h \<in> set (handles m)"
  shows "mgrOK m R"
  using assms unfolding mgrOK_def by blast

lemma mgrOK_acquire:
  assumes ok: "mgrOK m R" and acq: "acquireLatest m = (Some h, m')"
  shows "mgrOK m' (R(h := R h + 1))"
proof -
  note a = acquireLatest_Some[OF acq]
  note d = mgrOK_D[OF ok]
  have nd: "h \<notin> set (destroyLog m)"
    using d(5) a(1) by blast
  show ?thesis
    unfolding a(4)
  proof (rule mgrOK_I)
    fix k
    show "k \<in> set (handles (m\<lparr>refCount := (refCount m)(h := refCount m h + 1)\<rparr>)) \<Longrightarrow>
       retiring (m\<lparr>refCount := (refCount m)(h := refCount m h + 1)\<rparr>) k \<Longrightarrow>
       refCount (m\<lparr>refCount := (refCount m)(h := refCount m h + 1)\<rparr>) k \<noteq> 0"
      using d(4)[of k] a(2) by (cases "k = h") simp_all
    show "k \<in> set (destroyLog (m\<lparr>refCount := (refCount m)(h := refCount m h + 1)\<rparr>)) \<Longrightarrow>
       retiring (m\<lparr>refCount := (refCount m)(h := refCount m h + 1)\<rparr>) k \<and>
       refCount (m\<lparr>refCount := (refCount m)(h := refCount m h + 1)\<rparr>) k = 0"
      using d(6)[of k] nd by (cases "k = h") simp_all
    show "refCount (m\<lparr>refCount := (refCount m)(h := refCount m h + 1)\<rparr>) k = int ((R(h := R h + 1)) k)"
      by (simp add: d(7))
    show "0 < (R(h := R h + 1)) k \<Longrightarrow> k \<in> set (handles (m\<lparr>refCount := (refCount m)(h := refCount m h + 1)\<rparr>))"
      using d(8)[of k] a(1) by (cases "k = h") simp_all
    show "distinct (handles (m\<lparr>refCount := (refCount m)(h := refCount m h + 1)\<rparr>))"
      using d(1) by simp
    show "distinct (destroyLog (m\<lparr>refCount := (refCount m)(h := refCount m h + 1)\<rparr>))"
      using d(2) by simp
    show "k \<in> set (handles (m\<lparr>refCount := (refCount m)(h := refCount m h + 1)\<rparr>)) \<Longrightarrow>
          k < nextHandle (m\<lparr>refCount := (refCount m)(h := refCount m h + 1)\<rparr>)"
      using d(3)[of k] by simp
    show "k \<in> set (destroyLog (m\<lparr>refCount := (refCount m)(h := refCount m h + 1)\<rparr>)) \<longleftrightarrow>
          k < nextHandle (m\<lparr>refCount := (refCount m)(h := refCount m h + 1)\<rparr>) \<and>
          k \<notin> set (handles (m\<lparr>refCount := (refCount m)(h := refCount m h + 1)\<rparr>))"
      using d(5)[of k] by simp
  qed
qed

lemma acquire_None: "acquireLatest m = (None, m') \<Longrightarrow> m' = m"
  by (auto simp: acquireLatest_def Let_def split: if_splits)

lemma mgrOK_release:
  assumes ok: "mgrOK m R" and held: "0 < R h"
  shows "\<exists>m'. release h m = Inr m' \<and> mgrOK m' (R(h := R h - 1))"
proof -
  note d = mgrOK_D[OF ok]
  let ?m1 = "m\<lparr>refCount := (refCount m)(h := refCount m h - 1)\<rparr>"
  have live: "h \<in> set (handles m)" and rc: "refCount m h = int (R h)"
    using d(8)[OF held] d(7) by simp_all
  have nd: "h \<notin> set (destroyLog m)"
    using d(5) live by blast
  have rc1: "refCount ?m1 k = int ((R(h := R h - 1)) k)" for k
    using held by (simp add: d(7) of_nat_diff)
  show ?thesis
  proof (cases "retiring m h \<and> R h = 1")
    case True
    have r: "release h m = Inr (destroyHandle h ?m1)"
      using live True rc by (simp add: release_def Let_def)
    have "mgrOK (destroyHandle h ?m1) (R(h := R h - 1))"
    proof (rule mgrOK_I)
      fix k
      show "distinct (handles (destroyHandle h ?m1))"
        using d(1) by (simp add: destroyHandle_def distinct_removeAll)
      show "distinct (destroyLog (destroyHandle h ?m1))"
        using d(2) nd by (simp add: destroyHandle_def)
      show "k \<in> set (handles (destroyHandle h ?m1)) \<Longrightarrow> k < nextHandle (destroyHandle h ?m1)"
        using d(3)[of k] by (simp add: destroyHandle_def)
      show "k \<in> set (handles (destroyHandle h ?m1)) \<Longrightarrow> retiring (destroyHandle h ?m1) k \<Longrightarrow>
            refCount (destroyHandle h ?m1) k \<noteq> 0"
        using d(4)[of k] by (simp add: destroyHandle_def)
      show "k \<in> set (destroyLog (destroyHandle h ?m1)) \<longleftrightarrow>
            k < nextHandle (destroyHandle h ?m1) \<and> k \<notin> set (handles (destroyHandle h ?m1))"
        using d(5)[of k] d(3)[OF live] by (auto simp add: destroyHandle_def)
      show "k \<in> set (destroyLog (destroyHandle h ?m1)) \<Longrightarrow>
            retiring (destroyHandle h ?m1) k \<and> refCount (destroyHandle h ?m1) k = 0"
        using d(6)[of k] True rc by (cases "k = h") (simp_all add: destroyHandle_def)
      show "refCount (destroyHandle h ?m1) k = int ((R(h := R h - 1)) k)"
        using rc1[of k] by (simp add: destroyHandle_def)
      show "0 < (R(h := R h - 1)) k \<Longrightarrow> k \<in> set (handles (destroyHandle h ?m1))"
        using d(8)[of k] True by (cases "k = h") (simp_all add: destroyHandle_def)
    qed
    with r show ?thesis by blast
  next
    case False
    have r: "release h m = Inr ?m1"
      using live False rc held by (auto simp: release_def Let_def)
    have "mgrOK ?m1 (R(h := R h - 1))"
    proof (rule mgrOK_I)
      fix k
      show "k \<in> set (handles ?m1) \<Longrightarrow> retiring ?m1 k \<Longrightarrow> refCount ?m1 k \<noteq> 0"
        using d(4)[of k] False rc held by (cases "k = h") auto
      show "k \<in> set (destroyLog ?m1) \<Longrightarrow> retiring ?m1 k \<and> refCount ?m1 k = 0"
        using d(6)[of k] nd by (cases "k = h") simp_all
      show "refCount ?m1 k = int ((R(h := R h - 1)) k)"
        by (rule rc1)
      show "0 < (R(h := R h - 1)) k \<Longrightarrow> k \<in> set (handles ?m1)"
        using d(8)[of k] live by (cases "k = h") simp_all
      show "distinct (handles ?m1)"
        using d(1) by simp
      show "distinct (destroyLog ?m1)"
        using d(2) by simp
      show "k \<in> set (handles ?m1) \<Longrightarrow> k < nextHandle ?m1"
        using d(3)[of k] by simp
      show "k \<in> set (destroyLog ?m1) \<longleftrightarrow> k < nextHandle ?m1 \<and> k \<notin> set (handles ?m1)"
        using d(5)[of k] by simp
    qed
    with r show ?thesis by blast
  qed
qed

lemma mgrOK_load:
  assumes ok: "mgrOK m R"
  shows "mgrOK (loadModelAndStartDataWriting n m) R"
proof -
  note d = mgrOK_D[OF ok]
  let ?h = "nextHandle m"
  have f1: "?h \<notin> set (handles m)"
    using d(3)[of ?h] by blast
  have f2: "?h \<notin> set (destroyLog m)"
    using d(5)[of ?h] by simp
  have f3: "R ?h = 0"
    using d(8)[of ?h] f1 by auto
  define m2 where "m2 = loadModelAndStartDataWriting n m"
  have fields: "handles m2 = handles m @ [?h]" "destroyLog m2 = destroyLog m"
    "nextHandle m2 = Suc ?h" "refCount m2 = (refCount m)(?h := 0)"
    "retiring m2 = (retiring m)(?h := False)"
    by (simp_all add: m2_def loadModelAndStartDataWriting_def Let_def)
  have "mgrOK m2 R"
  proof (rule mgrOK_I)
    fix k
    show "distinct (handles m2)"
      using d(1) f1 by (simp add: fields)
    show "distinct (destroyLog m2)"
      using d(2) by (simp add: fields)
    show "k \<in> set (handles m2) \<Longrightarrow> k < nextHandle m2"
      using d(3)[of k] by (auto simp: fields)
    show "k \<in> set (handles m2) \<Longrightarrow> retiring m2 k \<Longrightarrow> refCount m2 k \<noteq> 0"
      using d(4)[of k] by (auto simp: fields split: if_splits)
    show "k \<in> set (destroyLog m2) \<longleftrightarrow> k < nextHandle m2 \<and> k \<notin> set (handles m2)"
      using d(5)[of k] by (auto simp: fields)
    show "k \<in> set (destroyLog m2) \<Longrightarrow> retiring m2 k \<and> refCount m2 k = 0"
      using d(6)[of k] f2 by (auto simp: fields)
    show "refCount m2 k = int (R k)"
      using f3 by (simp add: fields d(7))
    show "0 < R k \<Longrightarrow> k \<in> set (handles m2)"
      using d(8)[of k] by (simp add: fields)
  qed
  then show ?thesis
    by (simp add: m2_def)
qed

lemma mgrOK_schedule:
  assumes ok: "mgrOK m R"
  shows "mgrOK (scheduleCleanupModelWhenFree n m) R"
proof (cases "find (\<lambda>h. modelName m h = n) (handles m)")
  case None
  then show ?thesis using ok by (simp add: scheduleCleanupModelWhenFree_def)
next
  case (Some h)
  note d = mgrOK_D[OF ok]
  have live: "h \<in> set (handles m)"
    using Some by (auto simp: find_Some_iff)
  have nd: "h \<notin> set (destroyLog m)"
    using d(5) live by blast
  let ?m1 = "m\<lparr>retiring := (retiring m)(h := True)\<rparr>"
  show ?thesis
  proof (cases "refCount m h = 0")
    case True
    have eq: "scheduleCleanupModelWhenFree n m = destroyHandle h ?m1"
      using Some True by (simp add: scheduleCleanupModelWhenFree_def Let_def)
    have r0: "R h = 0"
      using True d(7)[of h] by simp
    show ?thesis
      unfolding eq
    proof (rule mgrOK_I)
      fix k
      show "distinct (handles (destroyHandle h ?m1))"
        using d(1) by (simp add: destroyHandle_def distinct_removeAll)
      show "distinct (destroyLog (destroyHandle h ?m1))"
        using d(2) nd by (simp add: destroyHandle_def)
      show "k \<in> set (handles (destroyHandle h ?m1)) \<Longrightarrow> k < nextHandle (destroyHandle h ?m1)"
        using d(3)[of k] by (simp add: destroyHandle_def)
      show "k \<in> set (handles (destroyHandle h ?m1)) \<Longrightarrow> retiring (destroyHandle h ?m1) k \<Longrightarrow>
            refCount (destroyHandle h ?m1) k \<noteq> 0"
        using d(4)[of k] by (simp add: destroyHandle_def)
      show "k \<in> set (destroyLog (destroyHandle h ?m1)) \<longleftrightarrow>
            k < nextHandle (destroyHandle h ?m1) \<and> k \<notin> set (handles (destroyHandle h ?m1))"
        using d(5)[of k] d(3)[OF live] by (auto simp add: destroyHandle_def)
      show "k \<in> set (destroyLog (destroyHandle h ?m1)) \<Longrightarrow>
            retiring (destroyHandle h ?m1) k \<and> refCount (destroyHandle h ?m1) k = 0"
        using d(6)[of k] True by (cases "k = h") (simp_all add: destroyHandle_def)
      show "refCount (destroyHandle h ?m1) k = int (R k)"
        by (simp add: destroyHandle_def d(7))
      show "0 < R k \<Longrightarrow> k \<in> set (handles (destroyHandle h ?m1))"
        using d(8)[of k] r0 by (cases "k = h") (simp_all add: destroyHandle_def)
    qed
  next
    case False
    have eq: "scheduleCleanupModelWhenFree n m = ?m1"
      using Some False by (simp add: scheduleCleanupModelWhenFree_def Let_def)
    show ?thesis
      unfolding eq
    proof (rule mgrOK_I)
      fix k
      show "k \<in> set (handles ?m1) \<Longrightarrow> retiring ?m1 k \<Longrightarrow> refCount ?m1 k \<noteq> 0"
        using d(4)[of k] False by (cases "k = h") simp_all
      show "k \<in> set (destroyLog ?m1) \<Longrightarrow> retiring ?m1 k \<and> refCount ?m1 k = 0"
        using d(6)[of k] by (cases "k = h") simp_all
      show "refCount ?m1 k = int (R k)"
        by (simp add: d(7))
      show "distinct (handles ?m1)"
        using d(1) by simp
      show "distinct (destroyLog ?m1)"
        using d(2) by simp
      show "k \<in> set (handles ?m1) \<Longrightarrow> k < nextHandle ?m1"
        using d(3)[of k] by simp
      show "k \<in> set (destroyLog ?m1) \<longleftrightarrow> k < nextHandle ?m1 \<and> k \<notin> set (handles ?m1)"
        using d(5)[of k] by simp
      show "0 < R k \<Longrightarrow> k \<in> set (handles ?m1)"
        using d(8)[of k] by simp
    qed
  qed
qed

lemma mgrOK_count: "mgrOK (countOneGameStarted h m) R = mgrOK m R"
  by (simp add: mgrOK_def countOneGameStarted_def)

lemma mgrOK_enqueue: "mgrOK (enqueueDataToWrite h g m) R = mgrOK m R"
  by (simp add: mgrOK_def enqueueDataToWrite_def)

lemma totalRefs_same: "workers s' = workers s \<Longrightarrow> totalRefs cfg s' = totalRefs cfg s"
  by (simp add: totalRefs_def fun_eq_iff)

lemma totalRefs_upd:
  assumes "t < numGameThreads cfg" "workers s' = (workers s)(t := w)"
  shows "totalRefs cfg s' k + refs (workers s t) k = totalRefs cfg s k + refs w k"
proof -
  let ?A = "{..<numGameThreads cfg}"
  have t: "t \<in> ?A" "finite ?A" using assms(1) by simp_all
  have c: "(\<Sum>i\<in>?A - {t}. refs (((workers s)(t := w)) i) k) = (\<Sum>i\<in>?A - {t}. refs (workers s i) k)"
    by (rule sum.cong) auto
  have 1: "totalRefs cfg s' k = refs w k + (\<Sum>i\<in>?A - {t}. refs (workers s i) k)"
    unfolding totalRefs_def assms(2) sum.remove[OF t(2) t(1)] c
    by simp
  have 2: "totalRefs cfg s k = refs (workers s t) k + (\<Sum>i\<in>?A - {t}. refs (workers s i) k)"
    unfolding totalRefs_def sum.remove[OF t(2) t(1)] by simp
  show ?thesis
    unfolding 1 2 by simp
qed

lemma totalRefs_ge: "t < numGameThreads cfg \<Longrightarrow> refs (workers s t) k \<le> totalRefs cfg s k"
  unfolding totalRefs_def
  by (rule member_le_sum) simp_all

lemma refInv_upd:
  assumes "t < numGameThreads cfg" "workers s' = (workers s)(t := w)"
    and "mgrOK (mgr s') R'"
    and "\<And>k. R' k + refs (workers s t) k = totalRefs cfg s k + refs w k"
  shows "refInv cfg s'"
proof -
  have "totalRefs cfg s' k = R' k" for k
    using totalRefs_upd[OF assms(1,2), of k] assms(4)[of k] by linarith
  then have "totalRefs cfg s' = R'"
    by (simp add: fun_eq_iff)
  then show ?thesis
    using assms(3) by (simp add: refInv_def)
qed

lemma refInv_same:
  assumes "refInv cfg s" "workers s' = workers s" "mgr s' = mgr s"
  shows "refInv cfg s'"
  using assms totalRefs_same[OF assms(2), of cfg] by (simp add: refInv_def)

lemma refs_pc:
  "wpc w = W_CheckStop \<Longrightarrow> refs w k = 0"
  "wpc w = W_Acquire \<Longrightarrow> refs w k = 0"
  "wpc w = W_Done \<Longrightarrow> refs w k = 0"
  "wpc w = W_FetchIdx \<Longrightarrow> refs w k = (if nnEval w = k then 1 else 0)"
  "wpc w = W_CountStarted \<Longrightarrow> refs w k = (if nnEval w = k then 1 else 0)"
  "wpc w = W_InGame \<Longrightarrow> refs w k = (if nnEval w = k then 1 else 0)"
  "wpc w = W_Enqueue \<Longrightarrow> refs w k = (if nnEval w = k then 1 else 0)"
  "wpc w = W_Release \<Longrightarrow> refs w k = (if nnEval w = k then 1 else 0)"
  "wpc w = W_Callback new \<Longrightarrow> refs w k = (if nnEval w = k then 1 else 0) + (if new = k then 1 else 0)"
  by (simp_all add: refs_def)

lemma refInv_checkStop:
  assumes "refInv cfg s" "t < numGameThreads cfg" "wpc (workers s t) = W_CheckStop"
  shows "refInv cfg (w_checkStop t s)"
proof (rule refInv_upd[OF assms(2)])
  show "workers (w_checkStop t s) = (workers s)(t := (workers s t)\<lparr>wpc := (if shouldStop s then W_Done else W_Acquire)\<rparr>)"
    by (simp add: w_checkStop_def)
  show "mgrOK (mgr (w_checkStop t s)) (totalRefs cfg s)"
    using assms(1) by (simp add: w_checkStop_def refInv_def)
  show "\<And>k. totalRefs cfg s k + refs (workers s t) k =
       totalRefs cfg s k + refs ((workers s t)\<lparr>wpc := (if shouldStop s then W_Done else W_Acquire)\<rparr>) k"
    using assms(3) by (simp add: refs_pc)
qed

lemma refInv_acquire:
  assumes "refInv cfg s" "t < numGameThreads cfg" "wpc (workers s t) = W_Acquire"
  shows "refInv cfg (w_acquire t s)"
proof (cases "acquireLatest (mgr s)")
  case (Pair r m)
  show ?thesis
  proof (cases r)
    case None
    then show ?thesis
      using Pair by (intro refInv_same[OF assms(1)]) (simp_all add: w_acquire_def)
  next
    case (Some h)
    let ?w = "(workers s t)\<lparr>nnEval := h, prevModelName := modelName m h, wpc := W_FetchIdx\<rparr>"
    have acq: "acquireLatest (mgr s) = (Some h, m)" using Pair Some by simp
    show ?thesis
    proof (rule refInv_upd[OF assms(2)])
      show "workers (w_acquire t s) = (workers s)(t := ?w)"
        by (simp add: w_acquire_def acq)
      show "mgrOK (mgr (w_acquire t s)) ((totalRefs cfg s)(h := totalRefs cfg s h + 1))"
        using mgrOK_acquire[OF assms(1)[unfolded refInv_def] acq] by (simp add: w_acquire_def acq)
      show "\<And>k. ((totalRefs cfg s)(h := totalRefs cfg s h + 1)) k + refs (workers s t) k =
           totalRefs cfg s k + refs ?w k"
        using assms(3) by (simp add: refs_pc)
    qed
  qed
qed

lemma refInv_fetchIdx:
  assumes "refInv cfg s" "t < numGameThreads cfg" "wpc (workers s t) = W_FetchIdx"
  shows "refInv cfg (w_fetchIdx t s)"
proof (rule refInv_upd[OF assms(2)])
  let ?w = "(workers s t)\<lparr>gameData := None, gameIdx := numGamesStarted s, wpc := W_CountStarted\<rparr>"
  show "workers (w_fetchIdx t s) = (workers s)(t := ?w)"
    by (simp add: w_fetchIdx_def)
  show "mgrOK (mgr (w_fetchIdx t s)) (totalRefs cfg s)"
    using assms(1) by (simp add: w_fetchIdx_def refInv_def)
  show "\<And>k. totalRefs cfg s k + refs (workers s t) k = totalRefs cfg s k + refs ?w k"
    using assms(3) by (simp add: refs_pc)
qed

lemma refInv_countStarted:
  assumes "refInv cfg s" "t < numGameThreads cfg" "wpc (workers s t) = W_CountStarted"
  shows "refInv cfg (w_countStarted cfg t s)"
proof (rule refInv_upd[OF assms(2)])
  let ?w = "(workers s t)\<lparr>wpc := (if gameIdx (workers s t) < maxGamesTotal cfg then W_InGame else W_Enqueue)\<rparr>"
  show "workers (w_countStarted cfg t s) = (workers s)(t := ?w)"
    by (simp add: w_countStarted_def Let_def)
  show "mgrOK (mgr (w_countStarted cfg t s)) (totalRefs cfg s)"
    using assms(1) by (simp add: w_countStarted_def Let_def refInv_def mgrOK_count)
  show "\<And>k. totalRefs cfg s k + refs (workers s t) k = totalRefs cfg s k + refs ?w k"
    using assms(3) by (simp add: refs_pc)
qed

lemma refInv_inGame:
  assumes "refInv cfg s" "t < numGameThreads cfg" "wpc (workers s t) = W_InGame"
  shows "refInv cfg (w_inGame cfg t env s)"
proof (cases env)
  case (GameReturns r)
  show ?thesis
  proof (rule refInv_upd[OF assms(2)])
    let ?w = "(workers s t)\<lparr>gameData := r, wpc := W_Enqueue\<rparr>"
    show "workers (w_inGame cfg t env s) = (workers s)(t := ?w)"
      by (simp add: w_inGame_def GameReturns)
    show "mgrOK (mgr (w_inGame cfg t env s)) (totalRefs cfg s)"
      using assms(1) by (simp add: w_inGame_def GameReturns refInv_def)
    show "\<And>k. totalRefs cfg s k + refs (workers s t) k = totalRefs cfg s k + refs ?w k"
      using assms(3) by (simp add: refs_pc)
  qed
next
  case InvokeCallback
  show ?thesis
  proof (cases "switchNetsMidGame cfg")
    case False
    then show ?thesis using assms(1) InvokeCallback by (simp add: w_inGame_def)
  next
    case True
    obtain r m where p: "acquireLatest (mgr s) = (r, m)"
      by (cases "acquireLatest (mgr s)")
    show ?thesis
    proof (cases r)
      case None
      then show ?thesis
        using p True InvokeCallback
        by (intro refInv_same[OF assms(1)]) (simp_all add: w_inGame_def)
    next
      case (Some new)
      let ?w = "(workers s t)\<lparr>wpc := W_Callback new\<rparr>"
      have acq: "acquireLatest (mgr s) = (Some new, m)" using p Some by simp
      show ?thesis
      proof (rule refInv_upd[OF assms(2)])
        show "workers (w_inGame cfg t env s) = (workers s)(t := ?w)"
          by (simp add: w_inGame_def InvokeCallback True acq)
        show "mgrOK (mgr (w_inGame cfg t env s)) ((totalRefs cfg s)(new := totalRefs cfg s new + 1))"
          using mgrOK_acquire[OF assms(1)[unfolded refInv_def] acq]
          by (simp add: w_inGame_def InvokeCallback True acq)
        show "\<And>k. ((totalRefs cfg s)(new := totalRefs cfg s new + 1)) k + refs (workers s t) k =
             totalRefs cfg s k + refs ?w k"
          using assms(3) by (simp add: refs_pc)
      qed
    qed
  qed
qed

lemma refInv_callback:
  assumes "refInv cfg s" "t < numGameThreads cfg" "wpc (workers s t) = W_Callback new"
  shows "refInv cfg (w_callback t new s)"
proof -
  let ?cur = "nnEval (workers s t)"
  let ?R = "totalRefs cfg s"
  note ok = assms(1)[unfolded refInv_def]
  note ge = totalRefs_ge[OF assms(2), of s]
  show ?thesis
  proof (cases "new = ?cur")
    case True
    have two: "refs (workers s t) new = 2"
      using assms(3) True by (simp add: refs_pc)
    then have pos: "0 < ?R new"
      using ge[of new] by simp
    from mgrOK_release[OF ok pos] obtain m' where
      r: "release new (mgr s) = Inr m'" and ok': "mgrOK m' (?R(new := ?R new - 1))"
      by blast
    let ?w = "(workers s t)\<lparr>nnEval := ?cur, prevModelName := modelName m' ?cur, wpc := W_InGame\<rparr>"
    show ?thesis
    proof (rule refInv_upd[OF assms(2)])
      show "workers (w_callback t new s) = (workers s)(t := ?w)"
        using True r by (simp add: w_callback_def cbDecide_def Let_def)
      show "mgrOK (mgr (w_callback t new s)) (?R(new := ?R new - 1))"
        using True r ok' by (simp add: w_callback_def cbDecide_def Let_def)
      show "\<And>k. (?R(new := ?R new - 1)) k + refs (workers s t) k = ?R k + refs ?w k"
        using assms(3) True pos by (auto simp: refs_pc)
    qed
  next
    case False
    have one: "refs (workers s t) ?cur = 1"
      using assms(3) False by (simp add: refs_pc)
    then have pos: "0 < ?R ?cur"
      using ge[of ?cur] by simp
    from mgrOK_release[OF ok pos] obtain m' where
      r: "release ?cur (mgr s) = Inr m'" and ok': "mgrOK m' (?R(?cur := ?R ?cur - 1))"
      by blast
    let ?w = "(workers s t)\<lparr>nnEval := new, prevModelName := modelName m' new, wpc := W_InGame\<rparr>"
    show ?thesis
    proof (rule refInv_upd[OF assms(2)])
      show "workers (w_callback t new s) = (workers s)(t := ?w)"
        using False r by (simp add: w_callback_def cbDecide_def Let_def)
      show "mgrOK (mgr (w_callback t new s)) (?R(?cur := ?R ?cur - 1))"
        using False r ok' by (simp add: w_callback_def cbDecide_def Let_def)
      show "\<And>k. (?R(?cur := ?R ?cur - 1)) k + refs (workers s t) k = ?R k + refs ?w k"
        using assms(3) False pos by (auto simp: refs_pc)
    qed
  qed
qed

lemma refInv_enqueue:
  assumes "refInv cfg s" "t < numGameThreads cfg" "wpc (workers s t) = W_Enqueue"
  shows "refInv cfg (w_enqueue t s)"
proof (rule refInv_upd[OF assms(2)])
  let ?w = "(workers s t)\<lparr>wpc := W_Release\<rparr>"
  show "workers (w_enqueue t s) = (workers s)(t := ?w)"
    by (simp add: w_enqueue_def Let_def split: option.splits)
  show "mgrOK (mgr (w_enqueue t s)) (totalRefs cfg s)"
    using assms(1) by (simp add: w_enqueue_def Let_def refInv_def mgrOK_enqueue split: option.splits)
  show "\<And>k. totalRefs cfg s k + refs (workers s t) k = totalRefs cfg s k + refs ?w k"
    using assms(3) by (simp add: refs_pc)
qed

lemma refInv_release:
  assumes "refInv cfg s" "t < numGameThreads cfg" "wpc (workers s t) = W_Release"
  shows "refInv cfg (w_release t s)"
proof -
  let ?cur = "nnEval (workers s t)"
  let ?R = "totalRefs cfg s"
  note ok = assms(1)[unfolded refInv_def]
  have one: "refs (workers s t) ?cur = 1"
    using assms(3) by (simp add: refs_pc)
  then have pos: "0 < ?R ?cur"
    using totalRefs_ge[OF assms(2), of s ?cur] by simp
  from mgrOK_release[OF ok pos] obtain m' where
    r: "release ?cur (mgr s) = Inr m'" and ok': "mgrOK m' (?R(?cur := ?R ?cur - 1))"
    by blast
  let ?w = "(workers s t)\<lparr>wpc := (if gameData (workers s t) \<noteq> None then W_CheckStop else W_Done)\<rparr>"
  show ?thesis
  proof (rule refInv_upd[OF assms(2)])
    show "workers (w_release t s) = (workers s)(t := ?w)"
      using r by (simp add: w_release_def Let_def)
    show "mgrOK (mgr (w_release t s)) (?R(?cur := ?R ?cur - 1))"
      using r ok' by (simp add: w_release_def Let_def)
    show "\<And>k. (?R(?cur := ?R ?cur - 1)) k + refs (workers s t) k = ?R k + refs ?w k"
      using assms(3) pos by (auto simp: refs_pc)
  qed
qed

lemma refInv_poller:
  assumes "refInv cfg s"
  shows "refInv cfg (pollerStep cfg env b s)"
proof -
  have R: "totalRefs cfg (pollerStep cfg env b s) = totalRefs cfg s"
    by (rule totalRefs_same) (rule pollerStep_frame)
  show ?thesis
    using pollerStep_mgr[of cfg env b s] assms
    unfolding refInv_def R
    by (auto simp: mgrOK_load mgrOK_schedule)
qed

lemma refInv_step:
  assumes "refInv cfg s"
  shows "refInv cfg (sysStep cfg s c)"
proof (rule sysStep_cases)
  show "refInv cfg (mainStep cfg s)"
    by (rule refInv_same[OF assms]) (simp_all add: mainStep_frame)
  show "refInv cfg (signalHandler s)"
    by (rule refInv_same[OF assms]) (simp_all add: signalHandler_frame)
qed (simp_all add: assms refInv_checkStop refInv_acquire refInv_fetchIdx refInv_countStarted
      refInv_inGame refInv_callback refInv_enqueue refInv_release refInv_poller)

lemma refInv_run:
  "refInv cfg s \<Longrightarrow> refInv cfg (run cfg cs s)"
  by (induction cs arbitrary: s) (simp_all add: run_Nil run_Cons refInv_step)

lemma refInv_start:
  assumes "mgrOK m (\<lambda>h. 0)"
  shows "refInv cfg (startThreads m es)"
proof -
  have "totalRefs cfg (startThreads m es) = (\<lambda>h. 0)"
    by (simp add: totalRefs_def startThreads_def initWorker_def refs_def fun_eq_iff)
  then show ?thesis
    using assms by (simp add: refInv_def startThreads_def)
qed

lemma mgrOK_empty: "mgrOK emptyManager (\<lambda>h. 0)"
  by (simp add: mgrOK_def emptyManager_def)

lemma refInv_selfplay:
  assumes "selfplay cfg env = Inr s0"
  shows "refInv cfg s0"
proof -
  let ?r = "loadLatestNeuralNetIntoManager cfg env None emptyManager"
  have ok: "loadOK ?r" and s0: "s0 = startThreads (loadedMgr ?r) (loadEvents ?r)"
    using assms by (auto simp: selfplay_def Let_def split: if_splits)
  have "\<exists>n. loadedMgr ?r = loadModelAndStartDataWriting n emptyManager"
    using ok by (auto simp: loadLatestNeuralNetIntoManager_def Let_def split: option.splits if_splits)
  then have "mgrOK (loadedMgr ?r) (\<lambda>h. 0)"
    using mgrOK_load[OF mgrOK_empty] by auto
  then show ?thesis
    unfolding s0 by (rule refInv_start)
qed

lemma count_list_distinct: "distinct xs \<Longrightarrow> count_list xs x = (if x \<in> set xs then 1 else 0)"
  by (induction xs) auto

lemma firstNetDrained_facts:
  "aborted firstNetDrained = None"
  "nextHandle (mgr firstNetDrained) = 2"
  "handles (mgr firstNetDrained) = [1]"
  "destroyLog (mgr firstNetDrained) = [0]"
  "refCount (mgr firstNetDrained) 0 = 0" "retiring (mgr firstNetDrained) 0"
  "refCount (mgr firstNetDrained) 1 = 0" "\<not> retiring (mgr firstNetDrained) 1"
  "dataQueue (mgr firstNetDrained) = [(0, 7)]"
  "wpc (workers firstNetDrained 0) = W_CheckStop"
  by (simp_all add: sample_defs run_Cons run_Nil step_defs mgr_defs eval_defs)

text \<open>
  C1. The manager of section 4.1 of the specification, driven by the game threads, the
  poller and the main thread of \<^verbatim>\<open>selfplay.cpp\<close> in any interleaving of their accesses:
  after every schedule, every handle ever issued has a reference count that is not
  negative, and its destroy routine has run exactly once if the handle is retiring with
  count zero, and not at all otherwise.
\<close>

theorem refcount_safe_destroy_once:
  assumes "selfplay cfg env = Inr s0"
  shows "\<forall>h < nextHandle (mgr (run cfg cs s0)).
           0 \<le> refCount (mgr (run cfg cs s0)) h \<and>
           count_list (destroyLog (mgr (run cfg cs s0))) h =
             (if retiring (mgr (run cfg cs s0)) h \<and> refCount (mgr (run cfg cs s0)) h = 0
              then 1 else 0)"
proof (intro allI impI)
  fix h
  let ?m = "mgr (run cfg cs s0)"
  assume lt: "h < nextHandle ?m"
  have "refInv cfg (run cfg cs s0)"
    by (rule refInv_run[OF refInv_selfplay[OF assms]])
  then have ok: "mgrOK ?m (totalRefs cfg (run cfg cs s0))"
    by (simp add: refInv_def)
  note d = mgrOK_D[OF ok]
  have nonneg: "0 \<le> refCount ?m h"
    by (simp add: d(7))
  have cnt: "count_list (destroyLog ?m) h = (if h \<in> set (destroyLog ?m) then 1 else 0)"
    by (rule count_list_distinct[OF d(2)])
  have "h \<in> set (destroyLog ?m) \<longleftrightarrow> retiring ?m h \<and> refCount ?m h = 0"
  proof
    assume "h \<in> set (destroyLog ?m)"
    then show "retiring ?m h \<and> refCount ?m h = 0" by (rule d(6))
  next
    assume r: "retiring ?m h \<and> refCount ?m h = 0"
    then have "h \<notin> set (handles ?m)"
      using d(4)[of h] by blast
    then show "h \<in> set (destroyLog ?m)"
      using d(5)[of h] lt by blast
  qed
  then show "0 \<le> refCount ?m h \<and>
           count_list (destroyLog ?m) h = (if retiring ?m h \<and> refCount ?m h = 0 then 1 else 0)"
    using nonneg cnt by simp
qed

theorem refcount_safe_destroy_once_witness:
  "selfplay sampleCfg (envFound ''net1'' True) = Inr sampleStart \<and>
   nextHandle (mgr firstNetDrained) = 2 \<and>
   retiring (mgr firstNetDrained) 0 \<and> refCount (mgr firstNetDrained) 0 = 0 \<and>
   count_list (destroyLog (mgr firstNetDrained)) 0 = 1 \<and>
   \<not> retiring (mgr firstNetDrained) 1 \<and> refCount (mgr firstNetDrained) 1 = 0 \<and>
   count_list (destroyLog (mgr firstNetDrained)) 1 = 0"
proof -
  note t = refcount_safe_destroy_once[OF selfplay_sample,
      of "schedInGame @ schedLoadNet2 @ schedDrain", folded firstNetDrained_def, rule_format]
  have "count_list (destroyLog (mgr firstNetDrained)) 0 = 1"
    using t[of 0] firstNetDrained_facts(2,5,6) by simp
  moreover have "count_list (destroyLog (mgr firstNetDrained)) 1 = 0"
    using t[of 1] firstNetDrained_facts(2,7,8) by simp
  ultimately show ?thesis
    using selfplay_sample firstNetDrained_facts by simp
qed

section \<open>References held by a game thread\<close>

lemmas held_defs = heldInv_def numAcquired_def numReleased_def

lemma heldInv_step:
  assumes "heldInv s t"
  shows "heldInv (sysStep cfg s c) t"
proof (rule sysStep_cases)
  show "heldInv s t" by fact
next
  fix u assume "wpc (workers s u) = W_CheckStop"
  then show "heldInv (w_checkStop u s) t"
    using assms by (auto simp: held_defs w_checkStop_def)
next
  fix u assume "wpc (workers s u) = W_Acquire"
  then show "heldInv (w_acquire u s) t"
    using assms by (auto simp: held_defs w_acquire_def split: prod.splits option.splits)
next
  fix u assume "wpc (workers s u) = W_FetchIdx"
  then show "heldInv (w_fetchIdx u s) t"
    using assms by (auto simp: held_defs w_fetchIdx_def)
next
  fix u assume "wpc (workers s u) = W_CountStarted"
  then show "heldInv (w_countStarted cfg u s) t"
    using assms by (auto simp: held_defs w_countStarted_def Let_def)
next
  fix u env assume "wpc (workers s u) = W_InGame"
  then show "heldInv (w_inGame cfg u env s) t"
    using assms
    by (auto simp: held_defs w_inGame_def split: prod.splits option.splits gameEnv.splits)
next
  fix u new assume "wpc (workers s u) = W_Callback new"
  then show "heldInv (w_callback u new s) t"
    using assms
    by (auto simp: held_defs w_callback_def cbDecide_def Let_def split: sum.splits)
next
  fix u assume "wpc (workers s u) = W_Enqueue"
  then show "heldInv (w_enqueue u s) t"
    using assms by (auto simp: held_defs w_enqueue_def Let_def split: option.splits)
next
  fix u assume "wpc (workers s u) = W_Release"
  then show "heldInv (w_release u s) t"
    using assms by (auto simp: held_defs w_release_def Let_def split: sum.splits)
next
  fix env b
  show "heldInv (pollerStep cfg env b s) t"
    using assms by (simp add: held_defs pollerStep_frame)
next
  show "heldInv (mainStep cfg s) t"
    using assms by (simp add: held_defs mainStep_frame)
next
  show "heldInv (signalHandler s) t"
    using assms by (simp add: held_defs signalHandler_frame)
qed

lemma heldInv_run: "heldInv s t \<Longrightarrow> heldInv (run cfg cs s) t"
  by (induction cs arbitrary: s) (simp_all add: run_Nil run_Cons heldInv_step)

lemma heldInv_start: "heldInv (startThreads m es) t"
  by (simp add: held_defs startThreads_def initWorker_def)

lemma selfplay_start:
  assumes "selfplay cfg env = Inr s0"
  shows "\<exists>m es. s0 = startThreads m es"
  using assms by (auto simp: selfplay_def Let_def split: if_splits)

lemma inCallback_facts:
  "wpc (workers inCallback 0) = W_Callback 0"
  "threadEvents (Worker 0) (trace inCallback) =
     [EvAcquire 0, EvFetchIdx 0, EvCountStarted 0, EvRunGame 0 0, EvAcquire 0]"
  "refCount (mgr inCallback) 0 = 2"
  by (simp_all add: sample_defs run_Cons run_Nil step_defs mgr_defs eval_defs)

text \<open>
  C10, as stated, fails: inside the callback, after its \<^verbatim>\<open>acquireLatest\<close> of line 249 and
  before its \<^verbatim>\<open>release\<close>, the game thread is between its initial acquire and its final
  release and holds two references (two acquisitions, no release; here both on handle 0,
  whose count is 2).
\<close>

theorem two_references_in_callback_counterexample:
  "selfplay sampleCfg (envFound ''net1'' True) = Inr sampleStart \<and>
   inCallback = run sampleCfg (schedInGame @ schedCallback) sampleStart \<and>
   wpc (workers inCallback 0) = W_Callback 0 \<and>
   threadEvents (Worker 0) (trace inCallback) =
     [EvAcquire 0, EvFetchIdx 0, EvCountStarted 0, EvRunGame 0 0, EvAcquire 0] \<and>
   numAcquired (Worker 0) inCallback = 2 \<and> numReleased (Worker 0) inCallback = 0 \<and>
   refCount (mgr inCallback) 0 = 2"
  using selfplay_sample inCallback_facts
  by (simp add: numAcquired_def numReleased_def inCallback_def)

text \<open>
  C10, amended. After every schedule, for every game thread: its successful
  \<^verbatim>\<open>acquireLatest\<close> calls are as many as its \<^verbatim>\<open>release\<close> calls whenever it is at an
  iteration boundary or has terminated (it holds no reference there, so a terminating
  thread leaks none); one more from its initial acquire to its final release; and two
  more inside the callback between the callback's acquire and its release.
\<close>

theorem held_references_by_program_point:
  assumes "selfplay cfg env = Inr s0"
  shows
    "(let s = run cfg cs s0; pc = wpc (workers s t)
      in numAcquired (Worker t) s = numReleased (Worker t) s + heldAt pc \<and>
         (pc = W_CheckStop \<or> pc = W_Acquire \<or> pc = W_Done \<longrightarrow>
            numAcquired (Worker t) s = numReleased (Worker t) s) \<and>
         (pc = W_FetchIdx \<or> pc = W_CountStarted \<or> pc = W_InGame \<or> pc = W_Enqueue \<or>
          pc = W_Release \<longrightarrow>
            numAcquired (Worker t) s = numReleased (Worker t) s + 1) \<and>
         (\<forall>new. pc = W_Callback new \<longrightarrow>
            numAcquired (Worker t) s = numReleased (Worker t) s + 2))"
proof -
  from selfplay_start[OF assms] obtain m es where s0: "s0 = startThreads m es"
    by blast
  have "heldInv (run cfg cs s0) t"
    unfolding s0 by (rule heldInv_run[OF heldInv_start])
  then show ?thesis
    unfolding Let_def heldInv_def by auto
qed

theorem held_references_by_program_point_witness:
  "selfplay sampleCfg (envFound ''net1'' True) = Inr sampleStart \<and>
   wpc (workers inCallback 0) = W_Callback 0 \<and>
   numAcquired (Worker 0) inCallback = numReleased (Worker 0) inCallback + 2 \<and>
   wpc (workers firstNetDrained 0) = W_CheckStop \<and>
   numAcquired (Worker 0) firstNetDrained = numReleased (Worker 0) firstNetDrained"
  using selfplay_sample inCallback_facts(1) firstNetDrained_facts(10)
    held_references_by_program_point[OF selfplay_sample, of "schedInGame @ schedCallback" 0,
      folded inCallback_def]
    held_references_by_program_point[OF selfplay_sample,
      of "schedInGame @ schedLoadNet2 @ schedDrain" 0, folded firstNetDrained_def]
  by (simp add: Let_def)

section \<open>Every call of the callback\<close>

lemma release_live:
  assumes "h \<in> set (handles m)"
  shows "\<exists>m'. release h m = Inr m' \<and> refCount m' = (refCount m)(h := refCount m h - 1)"
  using assms by (simp add: release_def Let_def destroyHandle_def)

lemma held_live:
  assumes ref: "refInv cfg s" and t: "t < numGameThreads cfg"
    and held: "heldAt (wpc (workers s t)) \<noteq> 0"
  shows "nnEval (workers s t) \<in> set (handles (mgr s))"
proof -
  have "0 < refs (workers s t) (nnEval (workers s t))"
    using held by (simp add: refs_def)
  then have "0 < totalRefs cfg s (nnEval (workers s t))"
    using totalRefs_ge[OF t, of s "nnEval (workers s t)"] by simp
  then show ?thesis
    using mgrOK_D(8)[OF ref[unfolded refInv_def]] by blast
qed

lemma callback_acquire_step:
  assumes "aborted s = None" "t < numGameThreads cfg" "wpc (workers s t) = W_InGame"
    "switchNetsMidGame cfg"
  shows "(case acquireLatest (mgr s) of
            (None, m1) \<Rightarrow> aborted (sysStep cfg s (WorkerStep t InvokeCallback)) = Some AssertFailed
          | (Some new, m1) \<Rightarrow>
              new = last (handles (mgr s)) \<and>
              wpc (workers (sysStep cfg s (WorkerStep t InvokeCallback)) t) = W_Callback new \<and>
              nnEval (workers (sysStep cfg s (WorkerStep t InvokeCallback)) t) = nnEval (workers s t) \<and>
              refCount (mgr (sysStep cfg s (WorkerStep t InvokeCallback))) =
                (refCount (mgr s))(new := refCount (mgr s) new + 1) \<and>
              trace (sysStep cfg s (WorkerStep t InvokeCallback)) =
                trace s @ [(Worker t, EvAcquire new)])"
proof (cases "acquireLatest (mgr s)")
  case (Pair r m1)
  show ?thesis
  proof (cases r)
    case None
    then show ?thesis
      using Pair assms by (simp add: sysStep_def workerStep_def w_inGame_def)
  next
    case (Some new)
    note a = acquireLatest_Some[OF Pair[unfolded Some]]
    show ?thesis
      using Pair Some assms a(3)
      by (simp add: sysStep_def workerStep_def w_inGame_def a(4))
  qed
qed

lemma callback_decide_step:
  assumes ab: "aborted s = None" and t: "t < numGameThreads cfg"
    and pc: "wpc (workers s t) = W_Callback got"
    and live: "nnEval (workers s t) \<in> set (handles (mgr s))"
  shows "aborted (sysStep cfg s (WorkerStep t e)) = None"
    "wpc (workers (sysStep cfg s (WorkerStep t e)) t) = W_InGame"
    "nnEval (workers (sysStep cfg s (WorkerStep t e)) t) = got"
    "refCount (mgr (sysStep cfg s (WorkerStep t e))) =
       (refCount (mgr s))(nnEval (workers s t) := refCount (mgr s) (nnEval (workers s t)) - 1)"
    "trace (sysStep cfg s (WorkerStep t e)) =
       trace s @ map (Pair (Worker t))
         [EvRelease (nnEval (workers s t)),
          EvCallbackReturned (if got = nnEval (workers s t) then None else Some got)]"
proof -
  let ?cur = "nnEval (workers s t)"
  from release_live[OF live] obtain m' where
    r: "release ?cur (mgr s) = Inr m'"
    and rc: "refCount m' = (refCount (mgr s))(?cur := refCount (mgr s) ?cur - 1)"
    by blast
  have d: "cbDecide ?cur got (mgr s) =
      Inr (m', if got = ?cur then ?cur else got, if got = ?cur then None else Some got)"
    using r by (simp add: cbDecide_def)
  have st: "sysStep cfg s (WorkerStep t e) = w_callback t got s"
    using ab t pc by (simp add: sysStep_def workerStep_def)
  show "aborted (sysStep cfg s (WorkerStep t e)) = None"
    unfolding st using ab d by (simp add: w_callback_def Let_def)
  show "wpc (workers (sysStep cfg s (WorkerStep t e)) t) = W_InGame"
    unfolding st using d by (simp add: w_callback_def Let_def)
  show "nnEval (workers (sysStep cfg s (WorkerStep t e)) t) = got"
    unfolding st using d by (simp add: w_callback_def Let_def)
  show "refCount (mgr (sysStep cfg s (WorkerStep t e))) =
       (refCount (mgr s))(?cur := refCount (mgr s) ?cur - 1)"
    unfolding st using d rc by (simp add: w_callback_def Let_def)
  show "trace (sysStep cfg s (WorkerStep t e)) =
       trace s @ map (Pair (Worker t))
         [EvRelease ?cur, EvCallbackReturned (if got = ?cur then None else Some got)]"
    unfolding st using d by (simp add: w_callback_def Let_def)
qed

lemma callbackDuringLoad_facts:
  "aborted callbackDuringLoad = None" "wpc (workers callbackDuringLoad 0) = W_Callback 0"
  "nnEval (workers callbackDuringLoad 0) = 0" "handles (mgr callbackDuringLoad) = [0, 1]"
  "refCount (mgr callbackDuringLoad) 0 = 2" "refCount (mgr callbackDuringLoad) 1 = 0"
  "getLatestModelName (mgr callbackDuringLoad) = ''net2''"
  by (simp_all add: sample_defs run_Cons run_Nil step_defs mgr_defs eval_defs)

text \<open>
  C4. After every schedule, for every game thread \<open>t\<close> holding \<open>cur\<close>. The call of the
  callback from inside \<^verbatim>\<open>runGame\<close> acquires the manager's latest handle \<open>new\<close> at that
  moment (or fails the assertion of line 250). Whatever the other threads do before the
  thread goes on, and whatever the latest handle is by then, the second half of the
  callback decides on the handle \<open>got\<close> it acquired: if \<open>got = cur\<close> it releases the
  reference it has just acquired and returns \<^verbatim>\<open>NULL\<close>, and the thread still holds \<open>cur\<close>;
  if \<open>got \<noteq> cur\<close> it releases \<open>cur\<close>, adopts \<open>got\<close> and returns it. In both cases
  the release succeeds, one count goes down by one and no other changes, and the thread
  leaves the callback holding exactly one reference. With no other thread in between,
  the two steps compute what \<^verbatim>\<open>checkForNewNNEval\<close> computes in one piece: with the same
  handle the manager is as before; with a new one the count of \<open>new\<close> is one higher and
  the count of \<open>cur\<close> one lower.
\<close>

theorem callback_swaps_only_on_new_net:
  assumes "selfplay cfg env = Inr s0"
  shows
    "(let s = run cfg cs s0;
          cur = nnEval (workers s t);
          s1 = sysStep cfg s (WorkerStep t InvokeCallback);
          s2 = sysStep cfg s (WorkerStep t e);
          sb = run cfg [WorkerStep t InvokeCallback, WorkerStep t e] s
      in (aborted s = None \<and> t < numGameThreads cfg \<and> wpc (workers s t) = W_InGame \<and>
          switchNetsMidGame cfg \<longrightarrow>
            (case acquireLatest (mgr s) of
               (None, m) \<Rightarrow> aborted s1 = Some AssertFailed
             | (Some new, m) \<Rightarrow>
                 new = last (handles (mgr s)) \<and>
                 wpc (workers s1 t) = W_Callback new \<and> nnEval (workers s1 t) = cur \<and>
                 refCount (mgr s1) = (refCount (mgr s))(new := refCount (mgr s) new + 1) \<and>
                 trace s1 = trace s @ [(Worker t, EvAcquire new)])) \<and>
         (aborted s = None \<and> t < numGameThreads cfg \<and> wpc (workers s t) = W_Callback got \<longrightarrow>
            aborted s2 = None \<and> wpc (workers s2 t) = W_InGame \<and>
            refCount (mgr s2) = (refCount (mgr s))(cur := refCount (mgr s) cur - 1) \<and>
            numAcquired (Worker t) s2 = numReleased (Worker t) s2 + 1 \<and>
            (got = cur \<longrightarrow>
               nnEval (workers s2 t) = cur \<and>
               trace s2 = trace s @ map (Pair (Worker t))
                 [EvRelease got, EvCallbackReturned None]) \<and>
            (got \<noteq> cur \<longrightarrow>
               nnEval (workers s2 t) = got \<and>
               trace s2 = trace s @ map (Pair (Worker t))
                 [EvRelease cur, EvCallbackReturned (Some got)])) \<and>
         (aborted s = None \<and> t < numGameThreads cfg \<and> wpc (workers s t) = W_InGame \<and>
          switchNetsMidGame cfg \<and> acquireLatest (mgr s) = (Some new, m1) \<longrightarrow>
            (new = cur \<longrightarrow>
               checkForNewNNEval cur (mgr s) = Inr (mgr s, cur, None) \<and>
               mgr sb = mgr s \<and> nnEval (workers sb t) = cur \<and> wpc (workers sb t) = W_InGame \<and>
               trace sb = trace s @ map (Pair (Worker t))
                 [EvAcquire new, EvRelease new, EvCallbackReturned None]) \<and>
            (new \<noteq> cur \<longrightarrow>
               checkForNewNNEval cur (mgr s) = Inr (mgr sb, new, Some new) \<and>
               refCount (mgr sb) new = refCount (mgr s) new + 1 \<and>
               refCount (mgr sb) cur = refCount (mgr s) cur - 1 \<and>
               (\<forall>h. h \<noteq> new \<and> h \<noteq> cur \<longrightarrow> refCount (mgr sb) h = refCount (mgr s) h) \<and>
               nnEval (workers sb t) = new \<and> wpc (workers sb t) = W_InGame \<and>
               trace sb = trace s @ map (Pair (Worker t))
                 [EvAcquire new, EvRelease cur, EvCallbackReturned (Some new)])))"
proof -
  let ?s = "run cfg cs s0"
  let ?cur = "nnEval (workers ?s t)"
  let ?s1 = "sysStep cfg ?s (WorkerStep t InvokeCallback)"
  let ?s2 = "sysStep cfg ?s (WorkerStep t e)"
  let ?sb = "run cfg [WorkerStep t InvokeCallback, WorkerStep t e] ?s"
  have ref: "refInv cfg ?s"
    by (rule refInv_run[OF refInv_selfplay[OF assms]])
  from selfplay_start[OF assms] obtain m es where s0: "s0 = startThreads m es"
    by blast
  have "heldInv (run cfg (cs @ [WorkerStep t e]) s0) t"
    unfolding s0 by (rule heldInv_run[OF heldInv_start])
  then have held2: "heldInv ?s2 t"
    by (simp only: run_snoc)
  have A: "(case acquireLatest (mgr ?s) of
               (None, m) \<Rightarrow> aborted ?s1 = Some AssertFailed
             | (Some new, m) \<Rightarrow>
                 new = last (handles (mgr ?s)) \<and>
                 wpc (workers ?s1 t) = W_Callback new \<and> nnEval (workers ?s1 t) = ?cur \<and>
                 refCount (mgr ?s1) = (refCount (mgr ?s))(new := refCount (mgr ?s) new + 1) \<and>
                 trace ?s1 = trace ?s @ [(Worker t, EvAcquire new)])"
    if "aborted ?s = None" "t < numGameThreads cfg" "wpc (workers ?s t) = W_InGame"
      "switchNetsMidGame cfg"
    by (rule callback_acquire_step[OF that])
  have B: "aborted ?s2 = None \<and> wpc (workers ?s2 t) = W_InGame \<and>
      refCount (mgr ?s2) = (refCount (mgr ?s))(?cur := refCount (mgr ?s) ?cur - 1) \<and>
      numAcquired (Worker t) ?s2 = numReleased (Worker t) ?s2 + 1 \<and>
      (got = ?cur \<longrightarrow>
         nnEval (workers ?s2 t) = ?cur \<and>
         trace ?s2 = trace ?s @ map (Pair (Worker t)) [EvRelease got, EvCallbackReturned None]) \<and>
      (got \<noteq> ?cur \<longrightarrow>
         nnEval (workers ?s2 t) = got \<and>
         trace ?s2 = trace ?s @ map (Pair (Worker t))
           [EvRelease ?cur, EvCallbackReturned (Some got)])"
    if ab: "aborted ?s = None" and t: "t < numGameThreads cfg"
      and pc: "wpc (workers ?s t) = W_Callback got"
  proof -
    have live: "?cur \<in> set (handles (mgr ?s))"
      by (rule held_live[OF ref t]) (simp add: pc)
    note st = callback_decide_step[OF ab t pc live, of e]
    have n: "numAcquired (Worker t) ?s2 = numReleased (Worker t) ?s2 + 1"
      using held2 st(2) by (simp add: heldInv_def)
    show ?thesis
      using st n by simp
  qed
  have C1: "checkForNewNNEval ?cur (mgr ?s) = Inr (mgr ?s, ?cur, None) \<and>
            mgr ?sb = mgr ?s \<and> nnEval (workers ?sb t) = ?cur \<and> wpc (workers ?sb t) = W_InGame \<and>
            trace ?sb = trace ?s @ map (Pair (Worker t))
              [EvAcquire new, EvRelease new, EvCallbackReturned None]"
    if run: "aborted ?s = None" "t < numGameThreads cfg" "wpc (workers ?s t) = W_InGame"
      "switchNetsMidGame cfg" and acq: "acquireLatest (mgr ?s) = (Some new, m1)"
      and eq: "new = ?cur"
  proof -
    have c: "checkForNewNNEval ?cur (mgr ?s) = Inr (mgr ?s, ?cur, None)"
      using callback_same[OF acq] eq by simp
    show ?thesis
      using c callback_steps[OF acq run c, of e] eq by simp
  qed
  have C2: "checkForNewNNEval ?cur (mgr ?s) = Inr (mgr ?sb, new, Some new) \<and>
            refCount (mgr ?sb) new = refCount (mgr ?s) new + 1 \<and>
            refCount (mgr ?sb) ?cur = refCount (mgr ?s) ?cur - 1 \<and>
            (\<forall>h. h \<noteq> new \<and> h \<noteq> ?cur \<longrightarrow> refCount (mgr ?sb) h = refCount (mgr ?s) h) \<and>
            nnEval (workers ?sb t) = new \<and> wpc (workers ?sb t) = W_InGame \<and>
            trace ?sb = trace ?s @ map (Pair (Worker t))
              [EvAcquire new, EvRelease ?cur, EvCallbackReturned (Some new)]"
    if run: "aborted ?s = None" "t < numGameThreads cfg" "wpc (workers ?s t) = W_InGame"
      "switchNetsMidGame cfg" and acq: "acquireLatest (mgr ?s) = (Some new, m1)"
      and ne: "new \<noteq> ?cur"
  proof -
    have live: "?cur \<in> set (handles (mgr ?s))"
      by (rule held_live[OF ref run(2)]) (simp add: run(3))
    from callback_differs[OF acq live ne] obtain m' where
      c: "checkForNewNNEval ?cur (mgr ?s) = Inr (m', new, Some new)"
      and rc: "refCount m' new = refCount (mgr ?s) new + 1"
        "refCount m' ?cur = refCount (mgr ?s) ?cur - 1"
        "\<forall>h. h \<noteq> new \<and> h \<noteq> ?cur \<longrightarrow> refCount m' h = refCount (mgr ?s) h"
      by blast
    note st = callback_steps[OF acq run c, of e]
    show ?thesis
      using c rc st ne by simp
  qed
  have A': "aborted ?s = None \<and> t < numGameThreads cfg \<and> wpc (workers ?s t) = W_InGame \<and>
          switchNetsMidGame cfg \<longrightarrow>
            (case acquireLatest (mgr ?s) of
               (None, m) \<Rightarrow> aborted ?s1 = Some AssertFailed
             | (Some new, m) \<Rightarrow>
                 new = last (handles (mgr ?s)) \<and>
                 wpc (workers ?s1 t) = W_Callback new \<and> nnEval (workers ?s1 t) = ?cur \<and>
                 refCount (mgr ?s1) = (refCount (mgr ?s))(new := refCount (mgr ?s) new + 1) \<and>
                 trace ?s1 = trace ?s @ [(Worker t, EvAcquire new)])"
    by (intro impI, elim conjE) (rule A; assumption)
  have B': "aborted ?s = None \<and> t < numGameThreads cfg \<and> wpc (workers ?s t) = W_Callback got \<longrightarrow>
      aborted ?s2 = None \<and> wpc (workers ?s2 t) = W_InGame \<and>
      refCount (mgr ?s2) = (refCount (mgr ?s))(?cur := refCount (mgr ?s) ?cur - 1) \<and>
      numAcquired (Worker t) ?s2 = numReleased (Worker t) ?s2 + 1 \<and>
      (got = ?cur \<longrightarrow>
         nnEval (workers ?s2 t) = ?cur \<and>
         trace ?s2 = trace ?s @ map (Pair (Worker t)) [EvRelease got, EvCallbackReturned None]) \<and>
      (got \<noteq> ?cur \<longrightarrow>
         nnEval (workers ?s2 t) = got \<and>
         trace ?s2 = trace ?s @ map (Pair (Worker t))
           [EvRelease ?cur, EvCallbackReturned (Some got)])"
    by (intro impI, elim conjE) (rule B; assumption)
  have C': "aborted ?s = None \<and> t < numGameThreads cfg \<and> wpc (workers ?s t) = W_InGame \<and>
          switchNetsMidGame cfg \<and> acquireLatest (mgr ?s) = (Some new, m1) \<longrightarrow>
            (new = ?cur \<longrightarrow>
               checkForNewNNEval ?cur (mgr ?s) = Inr (mgr ?s, ?cur, None) \<and>
               mgr ?sb = mgr ?s \<and> nnEval (workers ?sb t) = ?cur \<and> wpc (workers ?sb t) = W_InGame \<and>
               trace ?sb = trace ?s @ map (Pair (Worker t))
                 [EvAcquire new, EvRelease new, EvCallbackReturned None]) \<and>
            (new \<noteq> ?cur \<longrightarrow>
               checkForNewNNEval ?cur (mgr ?s) = Inr (mgr ?sb, new, Some new) \<and>
               refCount (mgr ?sb) new = refCount (mgr ?s) new + 1 \<and>
               refCount (mgr ?sb) ?cur = refCount (mgr ?s) ?cur - 1 \<and>
               (\<forall>h. h \<noteq> new \<and> h \<noteq> ?cur \<longrightarrow> refCount (mgr ?sb) h = refCount (mgr ?s) h) \<and>
               nnEval (workers ?sb t) = new \<and> wpc (workers ?sb t) = W_InGame \<and>
               trace ?sb = trace ?s @ map (Pair (Worker t))
                 [EvAcquire new, EvRelease ?cur, EvCallbackReturned (Some new)])"
    (is "_ \<longrightarrow> ?G")
  proof (intro impI, elim conjE)
    assume h: "aborted ?s = None" "t < numGameThreads cfg" "wpc (workers ?s t) = W_InGame"
      "switchNetsMidGame cfg" "acquireLatest (mgr ?s) = (Some new, m1)"
    show ?G
      using C1[OF h] C2[OF h] by blast
  qed
  show ?thesis
    unfolding Let_def by (intro conjI A' B' C')
qed

theorem callback_swaps_only_on_new_net_witness:
  "selfplay sampleCfg (envFound ''net1'' True) = Inr sampleStart \<and>
   0 < numGameThreads sampleCfg \<and> switchNetsMidGame sampleCfg \<and>
   aborted inGameNewNet = None \<and> wpc (workers inGameNewNet 0) = W_InGame \<and>
   nnEval (workers inGameNewNet 0) = 0 \<and>
   acquireLatest (mgr inGameNewNet) =
     (Some 1, (mgr inGameNewNet)\<lparr>refCount := (refCount (mgr inGameNewNet))(1 := 1)\<rparr>) \<and>
   wpc (workers (sysStep sampleCfg inGameNewNet (WorkerStep 0 InvokeCallback)) 0) = W_Callback 1 \<and>
   nnEval (workers (run sampleCfg [WorkerStep 0 InvokeCallback, WorkerStep 0 InvokeCallback]
                      inGameNewNet) 0) = 1 \<and>
   refCount (mgr (run sampleCfg [WorkerStep 0 InvokeCallback, WorkerStep 0 InvokeCallback]
                    inGameNewNet)) 1 = 1 \<and>
   refCount (mgr (run sampleCfg [WorkerStep 0 InvokeCallback, WorkerStep 0 InvokeCallback]
                    inGameNewNet)) 0 = 0 \<and>
   aborted callbackDuringLoad = None \<and> wpc (workers callbackDuringLoad 0) = W_Callback 0 \<and>
   nnEval (workers callbackDuringLoad 0) = 0 \<and> last (handles (mgr callbackDuringLoad)) = 1 \<and>
   refCount (mgr callbackDuringLoad) 0 = 2 \<and>
   wpc (workers (sysStep sampleCfg callbackDuringLoad (WorkerStep 0 InvokeCallback)) 0) = W_InGame \<and>
   nnEval (workers (sysStep sampleCfg callbackDuringLoad (WorkerStep 0 InvokeCallback)) 0) = 0 \<and>
   refCount (mgr (sysStep sampleCfg callbackDuringLoad (WorkerStep 0 InvokeCallback))) 0 = 1 \<and>
   trace (sysStep sampleCfg callbackDuringLoad (WorkerStep 0 InvokeCallback)) =
     trace callbackDuringLoad @ map (Pair (Worker 0)) [EvRelease 0, EvCallbackReturned None] \<and>
   aborted inGame = None \<and> wpc (workers inGame 0) = W_InGame \<and> nnEval (workers inGame 0) = 0 \<and>
   acquireLatest (mgr inGame) =
     (Some 0, (mgr inGame)\<lparr>refCount := (refCount (mgr inGame))(0 := 2)\<rparr>) \<and>
   checkForNewNNEval 0 (mgr inGame) = Inr (mgr inGame, 0, None)"
proof -
  have c: "0 < numGameThreads sampleCfg" "switchNetsMidGame sampleCfg"
    by (simp_all add: sampleCfg_def)
  note a = callback_swaps_only_on_new_net[OF selfplay_sample,
      where cs = "schedInGame @ schedLoadNet2" and t = 0 and e = InvokeCallback and got = 0
        and new = 1
        and ?m1.0 = "(mgr inGameNewNet)\<lparr>refCount := (refCount (mgr inGameNewNet))(1 := 1)\<rparr>",
      folded inGameNewNet_def, unfolded Let_def]
  note b = callback_swaps_only_on_new_net[OF selfplay_sample,
      where cs = "schedInGame @ schedCallback @ schedLoadNet2" and t = 0 and e = InvokeCallback
        and got = 0 and new = 0 and ?m1.0 = "mgr callbackDuringLoad",
      folded callbackDuringLoad_def, unfolded Let_def]
  note g = callback_swaps_only_on_new_net[OF selfplay_sample,
      where cs = "schedInGame" and t = 0 and e = InvokeCallback and got = 0 and new = 0
        and ?m1.0 = "(mgr inGame)\<lparr>refCount := (refCount (mgr inGame))(0 := 2)\<rparr>",
      folded inGame_def, unfolded Let_def]
  show ?thesis
    using selfplay_sample c inGameNewNet_facts callbackDuringLoad_facts(1-6)
      inGame_facts a b g
    by simp
qed

section \<open>Finished games\<close>

lemma worker_other:
  assumes "u \<noteq> t"
  shows "workers (w_checkStop u s) t = workers s t"
    "threadEvents (Worker t) (trace (w_checkStop u s)) = threadEvents (Worker t) (trace s)"
    "workers (w_acquire u s) t = workers s t"
    "threadEvents (Worker t) (trace (w_acquire u s)) = threadEvents (Worker t) (trace s)"
    "workers (w_fetchIdx u s) t = workers s t"
    "threadEvents (Worker t) (trace (w_fetchIdx u s)) = threadEvents (Worker t) (trace s)"
    "workers (w_countStarted cfg u s) t = workers s t"
    "threadEvents (Worker t) (trace (w_countStarted cfg u s)) = threadEvents (Worker t) (trace s)"
    "workers (w_inGame cfg u env s) t = workers s t"
    "threadEvents (Worker t) (trace (w_inGame cfg u env s)) = threadEvents (Worker t) (trace s)"
    "workers (w_callback u new s) t = workers s t"
    "threadEvents (Worker t) (trace (w_callback u new s)) = threadEvents (Worker t) (trace s)"
    "workers (w_enqueue u s) t = workers s t"
    "threadEvents (Worker t) (trace (w_enqueue u s)) = threadEvents (Worker t) (trace s)"
    "workers (w_release u s) t = workers s t"
    "threadEvents (Worker t) (trace (w_release u s)) = threadEvents (Worker t) (trace s)"
  using assms
  by (simp_all add: w_checkStop_def w_acquire_def w_fetchIdx_def w_countStarted_def w_inGame_def
      w_callback_def w_enqueue_def w_release_def Let_def
      split: prod.splits option.splits sum.splits gameEnv.splits)

lemma submitOrder_iff:
  "submitOrder a b \<longleftrightarrow>
     (\<forall>h g. a = EvGameReturned h (Some g) \<longrightarrow> b = EvEnqueue h g) \<and>
     (\<forall>h g. a = EvEnqueue h g \<longrightarrow> b = EvRelease h) \<and>
     (\<forall>h g. b = EvEnqueue h g \<longrightarrow> a = EvGameReturned h (Some g))"
  by (cases a; cases b) (auto simp: submitOrder_def split: option.splits)

lemma lastFits_plain:
  assumes "lastFits a w" "wpc w \<noteq> W_Release" "\<not> (wpc w = W_Enqueue \<and> gameData w \<noteq> None)"
    and "\<And>h g. b \<noteq> EvEnqueue h g"
  shows "submitOrder a b"
  using assms by (cases a) (auto simp: lastFits_def submitOrder_iff split: option.splits)

lemma lastFits_enqueue:
  assumes "lastFits a w" "wpc w = W_Enqueue" "gameData w = Some g"
  shows "submitOrder a (EvEnqueue (nnEval w) g)"
  using assms by (cases a) (auto simp: lastFits_def submitOrder_iff split: option.splits)

lemma lastFits_release:
  assumes "lastFits a w" "wpc w = W_Release"
  shows "submitOrder a (EvRelease (nnEval w))"
  using assms by (cases a) (auto simp: lastFits_def submitOrder_iff split: option.splits)

lemma lastFits_silent:
  assumes "lastFits a w" "wpc w \<noteq> W_Release" "\<not> (wpc w = W_Enqueue \<and> gameData w \<noteq> None)"
    and "\<not> (wpc w' = W_Enqueue \<and> gameData w' \<noteq> None)"
  shows "lastFits a w'"
  using assms by (cases a) (auto simp: lastFits_def split: option.splits)

lemma lastFits_other [simp]:
  "lastFits (EvAcquire h) w = (\<not> (wpc w = W_Enqueue \<and> gameData w \<noteq> None))"
  "lastFits (EvRelease h) w = (\<not> (wpc w = W_Enqueue \<and> gameData w \<noteq> None))"
  "lastFits (EvFetchIdx i) w = (\<not> (wpc w = W_Enqueue \<and> gameData w \<noteq> None))"
  "lastFits (EvCountStarted h) w = (\<not> (wpc w = W_Enqueue \<and> gameData w \<noteq> None))"
  "lastFits (EvRunGame i h) w = (\<not> (wpc w = W_Enqueue \<and> gameData w \<noteq> None))"
  "lastFits (EvCallbackReturned r) w = (\<not> (wpc w = W_Enqueue \<and> gameData w \<noteq> None))"
  "lastFits (EvGameReturned h None) w = (\<not> (wpc w = W_Enqueue \<and> gameData w \<noteq> None))"
  "lastFits (EvGameReturned h (Some g)) w = (wpc w = W_Enqueue \<and> gameData w = Some g \<and> nnEval w = h)"
  "lastFits (EvEnqueue h g) w = (wpc w = W_Release \<and> nnEval w = h)"
  by (simp_all add: lastFits_def)

lemma submitOrder_simps [simp]:
  "submitOrder (EvCountStarted h) (EvRunGame i k)"
  "submitOrder (EvRelease h) (EvCallbackReturned r)"
  by (simp_all add: submitOrder_def)

lemma orderLocal_snoc:
  assumes "orderLocal evs w"
    and "evs \<noteq> [] \<Longrightarrow> submitOrder (last evs) e"
    and "evs = [] \<Longrightarrow> isAcquire e"
    and "lastFits e w'"
    and "wpc w' = W_CountStarted \<Longrightarrow> gameData w' = None"
  shows "orderLocal (evs @ [e]) w'"
  using assms unfolding orderLocal_def
  by (cases "evs = []") (simp_all add: successively_append_iff)

lemma orderLocal_silent:
  assumes "orderLocal evs w"
    and "evs = [] \<Longrightarrow> wpc w' = W_CheckStop \<or> wpc w' = W_Acquire \<or> wpc w' = W_Done"
    and "evs \<noteq> [] \<Longrightarrow> lastFits (last evs) w'"
    and "wpc w' = W_CountStarted \<Longrightarrow> gameData w' = None"
  shows "orderLocal evs w'"
  using assms unfolding orderLocal_def by blast

lemma orderLocal_D:
  assumes "orderLocal evs w"
  shows "successively submitOrder evs"
    "evs = [] \<Longrightarrow> wpc w = W_CheckStop \<or> wpc w = W_Acquire \<or> wpc w = W_Done"
    "evs \<noteq> [] \<Longrightarrow> isAcquire (hd evs)" "evs \<noteq> [] \<Longrightarrow> lastFits (last evs) w"
    "wpc w = W_CountStarted \<Longrightarrow> gameData w = None"
  using assms unfolding orderLocal_def by blast+

lemma orderInv_cong:
  assumes "orderInv s t" "workers s' t = workers s t"
    "threadEvents (Worker t) (trace s') = threadEvents (Worker t) (trace s)"
  shows "orderInv s' t"
  using assms by (simp add: orderInv_def)

lemma orderInv_own:
  assumes inv: "orderInv s t"
  shows "wpc (workers s t) = W_CheckStop \<Longrightarrow> orderInv (w_checkStop t s) t"
    "wpc (workers s t) = W_Acquire \<Longrightarrow> orderInv (w_acquire t s) t"
    "wpc (workers s t) = W_FetchIdx \<Longrightarrow> orderInv (w_fetchIdx t s) t"
    "wpc (workers s t) = W_CountStarted \<Longrightarrow> orderInv (w_countStarted cfg t s) t"
    "wpc (workers s t) = W_InGame \<Longrightarrow> orderInv (w_inGame cfg t env s) t"
    "wpc (workers s t) = W_Callback new \<Longrightarrow> orderInv (w_callback t new s) t"
    "wpc (workers s t) = W_Enqueue \<Longrightarrow> orderInv (w_enqueue t s) t"
    "wpc (workers s t) = W_Release \<Longrightarrow> orderInv (w_release t s) t"
proof -
  let ?evs = "threadEvents (Worker t) (trace s)"
  let ?w = "workers s t"
  note L = inv[unfolded orderInv_def]
  note d = orderLocal_D[OF L]
  {
    assume pc: "wpc ?w = W_CheckStop"
    have "orderLocal ?evs (?w\<lparr>wpc := (if shouldStop s then W_Done else W_Acquire)\<rparr>)"
      using d(4) pc by (intro orderLocal_silent[OF L]) (auto intro: lastFits_silent split: if_splits)
    then show "orderInv (w_checkStop t s) t"
      by (simp add: orderInv_def w_checkStop_def)
  }
  {
    assume pc: "wpc ?w = W_Acquire"
    show "orderInv (w_acquire t s) t"
    proof (cases "acquireLatest (mgr s)")
      case (Pair r m)
      show ?thesis
      proof (cases r)
        case None
        then show ?thesis
          using Pair by (intro orderInv_cong[OF inv]) (simp_all add: w_acquire_def)
      next
        case (Some h)
        have "orderLocal (?evs @ [EvAcquire h])
                (?w\<lparr>nnEval := h, prevModelName := modelName m h, wpc := W_FetchIdx\<rparr>)"
          using d(4) pc by (intro orderLocal_snoc[OF L]) (auto intro: lastFits_plain split: if_splits)
        then show ?thesis
          using Pair Some by (simp add: orderInv_def w_acquire_def)
      qed
    qed
  }
  {
    assume pc: "wpc ?w = W_FetchIdx"
    have ne: "?evs \<noteq> []" using d(2) pc by auto
    have "orderLocal (?evs @ [EvFetchIdx (numGamesStarted s)])
            (?w\<lparr>gameData := None, gameIdx := numGamesStarted s, wpc := W_CountStarted\<rparr>)"
      using d(4) pc ne by (intro orderLocal_snoc[OF L]) (auto intro: lastFits_plain split: if_splits)
    then show "orderInv (w_fetchIdx t s) t"
      by (simp add: orderInv_def w_fetchIdx_def)
  }
  {
    assume pc: "wpc ?w = W_CountStarted"
    have ne: "?evs \<noteq> []" using d(2) pc by auto
    have nodata: "gameData ?w = None" using d(5) pc by simp
    let ?w' = "?w\<lparr>wpc := (if gameIdx ?w < maxGamesTotal cfg then W_InGame else W_Enqueue)\<rparr>"
    have 1: "orderLocal (?evs @ [EvCountStarted (nnEval ?w)]) ?w'"
      using d(4) pc ne nodata by (intro orderLocal_snoc[OF L]) (auto intro: lastFits_plain split: if_splits)
    have 2: "orderLocal ((?evs @ [EvCountStarted (nnEval ?w)]) @ [EvRunGame (gameIdx ?w) (nnEval ?w)]) ?w'"
      using nodata by (intro orderLocal_snoc[OF 1]) (auto split: if_splits)
    show "orderInv (w_countStarted cfg t s) t"
      using 1 2 by (cases "gameIdx ?w < maxGamesTotal cfg") (simp_all add: orderInv_def w_countStarted_def Let_def)
  }
  {
    assume pc: "wpc ?w = W_InGame"
    have ne: "?evs \<noteq> []" using d(2) pc by auto
    show "orderInv (w_inGame cfg t env s) t"
    proof (cases env)
      case (GameReturns r)
      have "orderLocal (?evs @ [EvGameReturned (nnEval ?w) r]) (?w\<lparr>gameData := r, wpc := W_Enqueue\<rparr>)"
        using d(4) pc ne by (intro orderLocal_snoc[OF L]) (cases r; auto intro: lastFits_plain split: if_splits)+
      then show ?thesis
        using GameReturns by (simp add: orderInv_def w_inGame_def)
    next
      case InvokeCallback
      show ?thesis
      proof (cases "switchNetsMidGame cfg")
        case False
        then show ?thesis using inv InvokeCallback by (simp add: w_inGame_def)
      next
        case True
        obtain r m where p: "acquireLatest (mgr s) = (r, m)"
          by (cases "acquireLatest (mgr s)")
        show ?thesis
        proof (cases r)
          case None
          then show ?thesis
            using p True InvokeCallback
            by (intro orderInv_cong[OF inv]) (simp_all add: w_inGame_def)
        next
          case (Some h)
          have "orderLocal (?evs @ [EvAcquire h]) (?w\<lparr>wpc := W_Callback h\<rparr>)"
            using d(4) pc ne by (intro orderLocal_snoc[OF L]) (auto intro: lastFits_plain split: if_splits)
          then show ?thesis
            using p Some True InvokeCallback by (simp add: orderInv_def w_inGame_def)
        qed
      qed
    qed
  }
  {
    assume pc: "wpc ?w = W_Callback new"
    have ne: "?evs \<noteq> []" using d(2) pc by auto
    show "orderInv (w_callback t new s) t"
    proof (cases "cbDecide (nnEval ?w) new (mgr s)")
      case (Inl e)
      then show ?thesis
        by (intro orderInv_cong[OF inv]) (simp_all add: w_callback_def Let_def)
    next
      case (Inr x)
      obtain m cur ret where x: "x = (m, cur, ret)" by (cases x)
      let ?w' = "?w\<lparr>nnEval := cur, prevModelName := modelName m cur, wpc := W_InGame\<rparr>"
      let ?e1 = "EvRelease (if new = nnEval ?w then new else nnEval ?w)"
      have 1: "orderLocal (?evs @ [?e1]) ?w'"
        using d(4) pc ne by (intro orderLocal_snoc[OF L]) (auto intro: lastFits_plain split: if_splits)
      have 2: "orderLocal ((?evs @ [?e1]) @ [EvCallbackReturned ret]) ?w'"
        by (intro orderLocal_snoc[OF 1]) auto
      show ?thesis
        using 2 Inr x by (simp add: orderInv_def w_callback_def Let_def)
    qed
  }
  {
    assume pc: "wpc ?w = W_Enqueue"
    have ne: "?evs \<noteq> []" using d(2) pc by auto
    show "orderInv (w_enqueue t s) t"
    proof (cases "gameData ?w")
      case None
      have "orderLocal ?evs (?w\<lparr>wpc := W_Release\<rparr>)"
        using d(4) pc ne None by (intro orderLocal_silent[OF L]) (auto intro: lastFits_silent split: if_splits)
      then show ?thesis
        using None by (simp add: orderInv_def w_enqueue_def Let_def)
    next
      case (Some g)
      have "orderLocal (?evs @ [EvEnqueue (nnEval ?w) g]) (?w\<lparr>wpc := W_Release\<rparr>)"
        using d(4) pc ne Some by (intro orderLocal_snoc[OF L]) (auto intro: lastFits_enqueue split: if_splits)
      then show ?thesis
        using Some by (simp add: orderInv_def w_enqueue_def Let_def)
    qed
  }
  {
    assume pc: "wpc ?w = W_Release"
    have ne: "?evs \<noteq> []" using d(2) pc by auto
    show "orderInv (w_release t s) t"
    proof (cases "release (nnEval ?w) (mgr s)")
      case (Inl e)
      then show ?thesis
        by (intro orderInv_cong[OF inv]) (simp_all add: w_release_def Let_def)
    next
      case (Inr m)
      have "orderLocal (?evs @ [EvRelease (nnEval ?w)])
              (?w\<lparr>wpc := (if gameData ?w \<noteq> None then W_CheckStop else W_Done)\<rparr>)"
        using d(4) pc ne by (intro orderLocal_snoc[OF L]) (auto intro: lastFits_release split: if_splits)
      then show ?thesis
        using Inr by (simp add: orderInv_def w_release_def Let_def)
    qed
  }
qed

lemma orderInv_step:
  assumes "orderInv s t"
  shows "orderInv (sysStep cfg s c) t"
proof (rule sysStep_cases)
  show "orderInv s t" by fact
next
  fix u assume "wpc (workers s u) = W_CheckStop"
  then show "orderInv (w_checkStop u s) t"
    by (cases "u = t") (simp_all add: orderInv_own[OF assms] orderInv_cong[OF assms] worker_other)
next
  fix u assume "wpc (workers s u) = W_Acquire"
  then show "orderInv (w_acquire u s) t"
    by (cases "u = t") (simp_all add: orderInv_own[OF assms] orderInv_cong[OF assms] worker_other)
next
  fix u assume "wpc (workers s u) = W_FetchIdx"
  then show "orderInv (w_fetchIdx u s) t"
    by (cases "u = t") (simp_all add: orderInv_own[OF assms] orderInv_cong[OF assms] worker_other)
next
  fix u assume "wpc (workers s u) = W_CountStarted"
  then show "orderInv (w_countStarted cfg u s) t"
    by (cases "u = t") (simp_all add: orderInv_own[OF assms] orderInv_cong[OF assms] worker_other)
next
  fix u env assume "wpc (workers s u) = W_InGame"
  then show "orderInv (w_inGame cfg u env s) t"
    by (cases "u = t") (simp_all add: orderInv_own[OF assms] orderInv_cong[OF assms] worker_other)
next
  fix u new assume "wpc (workers s u) = W_Callback new"
  then show "orderInv (w_callback u new s) t"
    by (cases "u = t") (simp_all add: orderInv_own[OF assms] orderInv_cong[OF assms] worker_other)
next
  fix u assume "wpc (workers s u) = W_Enqueue"
  then show "orderInv (w_enqueue u s) t"
    by (cases "u = t") (simp_all add: orderInv_own[OF assms] orderInv_cong[OF assms] worker_other)
next
  fix u assume "wpc (workers s u) = W_Release"
  then show "orderInv (w_release u s) t"
    by (cases "u = t") (simp_all add: orderInv_own[OF assms] orderInv_cong[OF assms] worker_other)
next
  fix env b
  show "orderInv (pollerStep cfg env b s) t"
    by (rule orderInv_cong[OF assms]) (simp_all add: pollerStep_frame)
next
  show "orderInv (mainStep cfg s) t"
    by (rule orderInv_cong[OF assms]) (simp_all add: mainStep_frame)
next
  show "orderInv (signalHandler s) t"
    by (rule orderInv_cong[OF assms]) (simp_all add: signalHandler_frame)
qed

lemma orderInv_run: "orderInv s t \<Longrightarrow> orderInv (run cfg cs s) t"
  by (induction cs arbitrary: s) (simp_all add: run_Nil run_Cons orderInv_step)

lemma orderInv_start: "orderInv (startThreads m es) t"
  by (simp add: orderInv_def orderLocal_def startThreads_def initWorker_def)

lemma dataQueue_ops:
  "acquireLatest m = (r, m') \<Longrightarrow> dataQueue m' = dataQueue m"
  "release h m = Inr m' \<Longrightarrow> dataQueue m' = dataQueue m"
  "dataQueue (countOneGameStarted h m) = dataQueue m"
  "dataQueue (scheduleCleanupModelWhenFree n m) = dataQueue m"
  "dataQueue (loadModelAndStartDataWriting n m) = dataQueue m"
  "dataQueue (enqueueDataToWrite h g m) = dataQueue m @ [(h, g)]"
  by (auto simp: mgr_defs Let_def split: if_splits option.splits)

lemma enqueuedBy_Nil: "isAttempt e \<or> isSleep e \<Longrightarrow> enqueuedBy (th, e) = []"
  by (cases e) simp_all

lemma loadEvents_no_enqueue:
  "concat (map (\<lambda>e. enqueuedBy (Poller, e))
     (loadEvents (loadLatestNeuralNetIntoManager cfg env l m))) = []"
  by (auto simp: loadLatestNeuralNetIntoManager_def Let_def enqueuedBy_Nil
      dest!: makeDirsLoop_events split: option.splits)

lemma pollerStep_enqueuedData: "enqueuedData (pollerStep cfg env b s) = enqueuedData s"
  by (simp add: pollerStep_def sweepStep_def Let_def enqueuedData_def comp_def
      loadEvents_no_enqueue split: ppc.splits)

lemma enqueuedData_step:
  assumes "dataQueue (mgr s) = enqueuedData s"
  shows "dataQueue (mgr (sysStep cfg s c)) = enqueuedData (sysStep cfg s c)"
proof (rule sysStep_cases)
  show "dataQueue (mgr s) = enqueuedData s" by fact
next
  fix u show "dataQueue (mgr (w_checkStop u s)) = enqueuedData (w_checkStop u s)"
    using assms by (simp add: w_checkStop_def enqueuedData_def)
next
  fix u show "dataQueue (mgr (w_acquire u s)) = enqueuedData (w_acquire u s)"
    using assms
    by (auto simp: w_acquire_def enqueuedData_def dataQueue_ops split: prod.splits option.splits)
next
  fix u show "dataQueue (mgr (w_fetchIdx u s)) = enqueuedData (w_fetchIdx u s)"
    using assms by (simp add: w_fetchIdx_def enqueuedData_def)
next
  fix u show "dataQueue (mgr (w_countStarted cfg u s)) = enqueuedData (w_countStarted cfg u s)"
    using assms by (simp add: w_countStarted_def enqueuedData_def dataQueue_ops Let_def)
next
  fix u env show "dataQueue (mgr (w_inGame cfg u env s)) = enqueuedData (w_inGame cfg u env s)"
    using assms
    by (auto simp: w_inGame_def enqueuedData_def dataQueue_ops
        split: prod.splits option.splits gameEnv.splits)
next
  fix u new show "dataQueue (mgr (w_callback u new s)) = enqueuedData (w_callback u new s)"
    using assms
    by (auto simp: w_callback_def cbDecide_def enqueuedData_def dataQueue_ops Let_def
        split: sum.splits if_splits)
next
  fix u show "dataQueue (mgr (w_enqueue u s)) = enqueuedData (w_enqueue u s)"
    using assms
    by (auto simp: w_enqueue_def enqueuedData_def dataQueue_ops Let_def split: option.splits)
next
  fix u show "dataQueue (mgr (w_release u s)) = enqueuedData (w_release u s)"
    using assms
    by (auto simp: w_release_def enqueuedData_def dataQueue_ops Let_def split: sum.splits)
next
  fix env b
  have "enqueuedData (pollerStep cfg env b s) = enqueuedData s"
    by (rule pollerStep_enqueuedData)
  then show "dataQueue (mgr (pollerStep cfg env b s)) = enqueuedData (pollerStep cfg env b s)"
    using assms pollerStep_mgr[of cfg env b s] by (auto simp: dataQueue_ops)
next
  show "dataQueue (mgr (mainStep cfg s)) = enqueuedData (mainStep cfg s)"
    using assms by (simp add: mainStep_def enqueuedData_def split: mpc.splits)
next
  show "dataQueue (mgr (signalHandler s)) = enqueuedData (signalHandler s)"
    using assms by (simp add: signalHandler_def enqueuedData_def)
qed

lemma enqueuedData_run:
  "dataQueue (mgr s) = enqueuedData s \<Longrightarrow>
   dataQueue (mgr (run cfg cs s)) = enqueuedData (run cfg cs s)"
  by (induction cs arbitrary: s) (simp_all add: run_Nil run_Cons enqueuedData_step)

lemma enqueuedData_selfplay:
  assumes "selfplay cfg env = Inr s0"
  shows "dataQueue (mgr s0) = enqueuedData s0"
proof -
  let ?r = "loadLatestNeuralNetIntoManager cfg env None emptyManager"
  have s0: "s0 = startThreads (loadedMgr ?r) (loadEvents ?r)"
    using assms by (auto simp: selfplay_def Let_def split: if_splits)
  have q: "dataQueue (loadedMgr ?r) = []"
    by (simp add: loadLatestNeuralNetIntoManager_def Let_def dataQueue_ops emptyManager_def
        split: option.splits)
  have "concat (map enqueuedBy (map (Pair MainThread) (loadEvents ?r))) = []"
    by (auto simp: loadLatestNeuralNetIntoManager_def Let_def enqueuedBy_Nil
        dest!: makeDirsLoop_events split: option.splits)
  then show ?thesis
    unfolding s0 using q by (simp add: startThreads_def enqueuedData_def)
qed

lemma swappedFinished_facts:
  "threadEvents (Worker 0) (trace swappedFinished) =
     [EvAcquire 0, EvFetchIdx 0, EvCountStarted 0, EvRunGame 0 0, EvAcquire 1, EvRelease 0,
      EvCallbackReturned (Some 1), EvGameReturned 1 (Some 7), EvEnqueue 1 7, EvRelease 1]"
  "dataQueue (mgr swappedFinished) = [(1, 7)]"
  "wpc (workers swappedFinished 0) = W_CheckStop"
  by (simp_all add: sample_defs run_Cons run_Nil step_defs mgr_defs eval_defs)

lemma submitOrder_submitted: "submitOrder a b \<Longrightarrow> submitted b = finished a"
  by (cases a; cases b) (auto simp: submitOrder_def split: option.splits)

lemma submitted_finished:
  assumes "successively submitOrder evs"
  shows "concat (map submitted evs) @ (if evs = [] then [] else finished (last evs)) =
         (if evs = [] then [] else submitted (hd evs)) @ concat (map finished evs)"
  using assms
proof (induction evs rule: induct_list012)
  case 1
  show ?case by simp
next
  case (2 a)
  show ?case by simp
next
  case (3 a b evs)
  have o: "submitOrder a b" and s: "successively submitOrder (b # evs)"
    using "3.prems" by simp_all
  have ih: "concat (map submitted (b # evs)) @ finished (last (b # evs)) =
            submitted b @ concat (map finished (b # evs))"
    using "3.IH"(2)[OF s] by simp
  have "concat (map submitted (a # b # evs)) @ finished (last (a # b # evs)) =
        submitted a @ (concat (map submitted (b # evs)) @ finished (last (b # evs)))"
    by simp
  also have "\<dots> = submitted a @ submitted b @ concat (map finished (b # evs))"
    by (simp only: ih)
  also have "\<dots> = submitted a @ concat (map finished (a # b # evs))"
    by (simp add: submitOrder_submitted[OF o])
  finally show ?case by simp
qed

lemma lastFits_unsubmitted: "lastFits e w \<Longrightarrow> finished e = unsubmitted w"
proof (cases e)
  case (EvGameReturned h r)
  assume "lastFits e w"
  then show ?thesis
    using EvGameReturned by (cases r) (auto simp: unsubmitted_def split: option.splits)
qed (auto simp: unsubmitted_def lastFits_def split: option.splits)

lemma orderLocal_submitted:
  assumes "orderLocal evs w"
  shows "concat (map submitted evs) @ unsubmitted w = concat (map finished evs)"
proof (cases "evs = []")
  case True
  then show ?thesis
    using orderLocal_D(2)[OF assms] by (auto simp: unsubmitted_def)
next
  case False
  have h: "submitted (hd evs) = []"
    using orderLocal_D(3)[OF assms False] by (cases "hd evs") simp_all
  have l: "finished (last evs) = unsubmitted w"
    by (rule lastFits_unsubmitted[OF orderLocal_D(4)[OF assms False]])
  show ?thesis
    using submitted_finished[OF orderLocal_D(1)[OF assms]] False h l by simp
qed

lemma return_step:
  assumes "aborted s = None" "t < numGameThreads cfg" "wpc (workers s t) = W_InGame"
  shows "threadEvents (Worker t) (trace (sysStep cfg s (WorkerStep t (GameReturns r)))) =
           threadEvents (Worker t) (trace s) @ [EvGameReturned (nnEval (workers s t)) r]"
    "wpc (workers (sysStep cfg s (WorkerStep t (GameReturns r))) t) = W_Enqueue"
    "gameData (workers (sysStep cfg s (WorkerStep t (GameReturns r))) t) = r"
    "nnEval (workers (sysStep cfg s (WorkerStep t (GameReturns r))) t) = nnEval (workers s t)"
  using assms by (simp_all add: sysStep_def workerStep_def w_inGame_def)

lemma enqueue_step:
  assumes "aborted s = None" "t < numGameThreads cfg" "wpc (workers s t) = W_Enqueue"
    "gameData (workers s t) = Some g"
  shows "threadEvents (Worker t) (trace (sysStep cfg s (WorkerStep t e))) =
           threadEvents (Worker t) (trace s) @ [EvEnqueue (nnEval (workers s t)) g]"
    "dataQueue (mgr (sysStep cfg s (WorkerStep t e))) =
       dataQueue (mgr s) @ [(nnEval (workers s t), g)]"
    "wpc (workers (sysStep cfg s (WorkerStep t e)) t) = W_Release"
    "nnEval (workers (sysStep cfg s (WorkerStep t e)) t) = nnEval (workers s t)"
    "gameData (workers (sysStep cfg s (WorkerStep t e)) t) = Some g"
  using assms
  by (simp_all add: sysStep_def workerStep_def w_enqueue_def Let_def enqueueDataToWrite_def)

lemma skip_enqueue_step:
  assumes "aborted s = None" "t < numGameThreads cfg" "wpc (workers s t) = W_Enqueue"
    "gameData (workers s t) = None"
  shows "trace (sysStep cfg s (WorkerStep t e)) = trace s"
    "dataQueue (mgr (sysStep cfg s (WorkerStep t e))) = dataQueue (mgr s)"
    "wpc (workers (sysStep cfg s (WorkerStep t e)) t) = W_Release"
  using assms by (simp_all add: sysStep_def workerStep_def w_enqueue_def Let_def)

lemma release_step:
  assumes ab: "aborted s = None" and t: "t < numGameThreads cfg"
    and pc: "wpc (workers s t) = W_Release"
    and live: "nnEval (workers s t) \<in> set (handles (mgr s))"
  shows "aborted (sysStep cfg s (WorkerStep t e)) = None"
    "threadEvents (Worker t) (trace (sysStep cfg s (WorkerStep t e))) =
       threadEvents (Worker t) (trace s) @ [EvRelease (nnEval (workers s t))]"
    "dataQueue (mgr (sysStep cfg s (WorkerStep t e))) = dataQueue (mgr s)"
    "wpc (workers (sysStep cfg s (WorkerStep t e)) t) =
       (if gameData (workers s t) \<noteq> None then W_CheckStop else W_Done)"
proof -
  from release_live[OF live] obtain m' where
    r: "release (nnEval (workers s t)) (mgr s) = Inr m'"
    by blast
  have q: "dataQueue m' = dataQueue (mgr s)"
    by (rule dataQueue_ops(2)[OF r])
  have st: "sysStep cfg s (WorkerStep t e) = w_release t s"
    using ab t pc by (simp add: sysStep_def workerStep_def)
  show "aborted (sysStep cfg s (WorkerStep t e)) = None"
    unfolding st using ab r by (simp add: w_release_def Let_def)
  show "threadEvents (Worker t) (trace (sysStep cfg s (WorkerStep t e))) =
       threadEvents (Worker t) (trace s) @ [EvRelease (nnEval (workers s t))]"
    unfolding st using r by (simp add: w_release_def Let_def)
  show "dataQueue (mgr (sysStep cfg s (WorkerStep t e))) = dataQueue (mgr s)"
    unfolding st using r q by (simp add: w_release_def Let_def)
  show "wpc (workers (sysStep cfg s (WorkerStep t e)) t) =
       (if gameData (workers s t) \<noteq> None then W_CheckStop else W_Done)"
    unfolding st using r by (simp add: w_release_def Let_def)
qed

lemma gameReturned_facts:
  "aborted gameReturned = None" "wpc (workers gameReturned 0) = W_Enqueue"
  "gameData (workers gameReturned 0) = Some 7" "nnEval (workers gameReturned 0) = 1"
  "dataQueue (mgr gameReturned) = []"
  "threadEvents (Worker 0) (trace gameReturned) =
     [EvAcquire 0, EvFetchIdx 0, EvCountStarted 0, EvRunGame 0 0, EvAcquire 1, EvRelease 0,
      EvCallbackReturned (Some 1), EvGameReturned 1 (Some 7)]"
  by (simp_all add: sample_defs run_Cons run_Nil step_defs mgr_defs eval_defs)

lemma gameEnqueued_facts:
  "aborted gameEnqueued = None" "wpc (workers gameEnqueued 0) = W_Release"
  "gameData (workers gameEnqueued 0) = Some 7" "nnEval (workers gameEnqueued 0) = 1"
  "dataQueue (mgr gameEnqueued) = [(1, 7)]"
  "threadEvents (Worker 0) (trace gameEnqueued) =
     [EvAcquire 0, EvFetchIdx 0, EvCountStarted 0, EvRunGame 0 0, EvAcquire 1, EvRelease 0,
      EvCallbackReturned (Some 1), EvGameReturned 1 (Some 7), EvEnqueue 1 7]"
  by (simp_all add: sample_defs run_Cons run_Nil step_defs mgr_defs eval_defs)

text \<open>
  C5. After every schedule, for every game thread: its calls are in submit order (a game
  that returned data is followed at once by one \<^verbatim>\<open>enqueueDataToWrite\<close> of that data,
  tagged with the handle the thread held when the game returned, the enqueue is followed
  at once by the release of that handle, and no enqueue follows anything else); the
  games it has enqueued, with their handles, are the games its calls of \<^verbatim>\<open>runGame\<close>
  returned, in the same order, but for the one it holds at line 284 and has not yet
  enqueued; and the queue of the manager holds exactly the enqueued games. The steps of
  the thread: the return of \<^verbatim>\<open>runGame\<close> records the handle in \<^verbatim>\<open>nnEval\<close> at that moment
  (after a swap in the callback, the new one) and takes the thread to line 284; there
  it enqueues the data it holds under that handle, and enqueues nothing if it holds
  \<^verbatim>\<open>NULL\<close>; then it releases that handle, the release succeeds, and the thread goes round
  the loop if and only if the game returned data.
\<close>

theorem finished_game_enqueued_once_then_released:
  assumes "selfplay cfg env = Inr s0"
  shows
    "(let s = run cfg cs s0;
          w = workers s t;
          evs = threadEvents (Worker t) (trace s);
          sr = sysStep cfg s (WorkerStep t (GameReturns r));
          s' = sysStep cfg s (WorkerStep t e)
      in successively submitOrder evs \<and>
         (evs \<noteq> [] \<longrightarrow> isAcquire (hd evs)) \<and>
         dataQueue (mgr s) = enqueuedData s \<and>
         concat (map submitted evs) @ unsubmitted w = concat (map finished evs) \<and>
         (aborted s = None \<and> t < numGameThreads cfg \<and> wpc w = W_InGame \<longrightarrow>
            threadEvents (Worker t) (trace sr) = evs @ [EvGameReturned (nnEval w) r] \<and>
            wpc (workers sr t) = W_Enqueue \<and> gameData (workers sr t) = r \<and>
            nnEval (workers sr t) = nnEval w) \<and>
         (aborted s = None \<and> t < numGameThreads cfg \<and> wpc w = W_Enqueue \<and>
          gameData w = Some g \<longrightarrow>
            threadEvents (Worker t) (trace s') = evs @ [EvEnqueue (nnEval w) g] \<and>
            dataQueue (mgr s') = dataQueue (mgr s) @ [(nnEval w, g)] \<and>
            wpc (workers s' t) = W_Release \<and> nnEval (workers s' t) = nnEval w \<and>
            gameData (workers s' t) = Some g) \<and>
         (aborted s = None \<and> t < numGameThreads cfg \<and> wpc w = W_Enqueue \<and>
          gameData w = None \<longrightarrow>
            trace s' = trace s \<and> dataQueue (mgr s') = dataQueue (mgr s) \<and>
            wpc (workers s' t) = W_Release) \<and>
         (aborted s = None \<and> t < numGameThreads cfg \<and> wpc w = W_Release \<longrightarrow>
            aborted s' = None \<and>
            threadEvents (Worker t) (trace s') = evs @ [EvRelease (nnEval w)] \<and>
            dataQueue (mgr s') = dataQueue (mgr s) \<and>
            wpc (workers s' t) = (if gameData w \<noteq> None then W_CheckStop else W_Done)))"
proof -
  from selfplay_start[OF assms] obtain m es where s0: "s0 = startThreads m es"
    by blast
  let ?s = "run cfg cs s0"
  let ?w = "workers ?s t"
  let ?evs = "threadEvents (Worker t) (trace ?s)"
  let ?sr = "sysStep cfg ?s (WorkerStep t (GameReturns r))"
  let ?s' = "sysStep cfg ?s (WorkerStep t e)"
  have "orderInv ?s t"
    unfolding s0 by (rule orderInv_run[OF orderInv_start])
  then have L: "orderLocal ?evs ?w"
    by (simp add: orderInv_def)
  note d = orderLocal_D[OF L]
  have q: "dataQueue (mgr ?s) = enqueuedData ?s"
    by (rule enqueuedData_run[OF enqueuedData_selfplay[OF assms]])
  have ref: "refInv cfg ?s"
    by (rule refInv_run[OF refInv_selfplay[OF assms]])
  have sub: "concat (map submitted ?evs) @ unsubmitted ?w = concat (map finished ?evs)"
    by (rule orderLocal_submitted[OF L])
  have hd: "?evs \<noteq> [] \<longrightarrow> isAcquire (hd ?evs)"
    using d(3) by blast
  have R: "aborted ?s = None \<and> t < numGameThreads cfg \<and> wpc ?w = W_InGame \<longrightarrow>
            threadEvents (Worker t) (trace ?sr) = ?evs @ [EvGameReturned (nnEval ?w) r] \<and>
            wpc (workers ?sr t) = W_Enqueue \<and> gameData (workers ?sr t) = r \<and>
            nnEval (workers ?sr t) = nnEval ?w"
  proof (intro impI, elim conjE)
    assume h: "aborted ?s = None" "t < numGameThreads cfg" "wpc ?w = W_InGame"
    show "threadEvents (Worker t) (trace ?sr) = ?evs @ [EvGameReturned (nnEval ?w) r] \<and>
            wpc (workers ?sr t) = W_Enqueue \<and> gameData (workers ?sr t) = r \<and>
            nnEval (workers ?sr t) = nnEval ?w"
      by (intro conjI return_step[OF h])
  qed
  have E: "aborted ?s = None \<and> t < numGameThreads cfg \<and> wpc ?w = W_Enqueue \<and>
          gameData ?w = Some g \<longrightarrow>
            threadEvents (Worker t) (trace ?s') = ?evs @ [EvEnqueue (nnEval ?w) g] \<and>
            dataQueue (mgr ?s') = dataQueue (mgr ?s) @ [(nnEval ?w, g)] \<and>
            wpc (workers ?s' t) = W_Release \<and> nnEval (workers ?s' t) = nnEval ?w \<and>
            gameData (workers ?s' t) = Some g"
  proof (intro impI, elim conjE)
    assume h: "aborted ?s = None" "t < numGameThreads cfg" "wpc ?w = W_Enqueue"
      "gameData ?w = Some g"
    show "threadEvents (Worker t) (trace ?s') = ?evs @ [EvEnqueue (nnEval ?w) g] \<and>
            dataQueue (mgr ?s') = dataQueue (mgr ?s) @ [(nnEval ?w, g)] \<and>
            wpc (workers ?s' t) = W_Release \<and> nnEval (workers ?s' t) = nnEval ?w \<and>
            gameData (workers ?s' t) = Some g"
      by (intro conjI enqueue_step[OF h])
  qed
  have N: "aborted ?s = None \<and> t < numGameThreads cfg \<and> wpc ?w = W_Enqueue \<and>
          gameData ?w = None \<longrightarrow>
            trace ?s' = trace ?s \<and> dataQueue (mgr ?s') = dataQueue (mgr ?s) \<and>
            wpc (workers ?s' t) = W_Release"
  proof (intro impI, elim conjE)
    assume h: "aborted ?s = None" "t < numGameThreads cfg" "wpc ?w = W_Enqueue"
      "gameData ?w = None"
    show "trace ?s' = trace ?s \<and> dataQueue (mgr ?s') = dataQueue (mgr ?s) \<and>
            wpc (workers ?s' t) = W_Release"
      by (intro conjI skip_enqueue_step[OF h])
  qed
  have A: "aborted ?s = None \<and> t < numGameThreads cfg \<and> wpc ?w = W_Release \<longrightarrow>
            aborted ?s' = None \<and>
            threadEvents (Worker t) (trace ?s') = ?evs @ [EvRelease (nnEval ?w)] \<and>
            dataQueue (mgr ?s') = dataQueue (mgr ?s) \<and>
            wpc (workers ?s' t) = (if gameData ?w \<noteq> None then W_CheckStop else W_Done)"
  proof (intro impI, elim conjE)
    assume h: "aborted ?s = None" "t < numGameThreads cfg" "wpc ?w = W_Release"
    have live: "nnEval ?w \<in> set (handles (mgr ?s))"
      by (rule held_live[OF ref h(2)]) (simp add: h(3))
    show "aborted ?s' = None \<and>
            threadEvents (Worker t) (trace ?s') = ?evs @ [EvRelease (nnEval ?w)] \<and>
            dataQueue (mgr ?s') = dataQueue (mgr ?s) \<and>
            wpc (workers ?s' t) = (if gameData ?w \<noteq> None then W_CheckStop else W_Done)"
      by (intro conjI release_step[OF h live])
  qed
  show ?thesis
    unfolding Let_def by (intro conjI d(1) hd q sub R E N A)
qed

theorem finished_game_enqueued_once_then_released_witness:
  "selfplay sampleCfg (envFound ''net1'' True) = Inr sampleStart \<and>
   0 < numGameThreads sampleCfg \<and>
   aborted inGame = None \<and> wpc (workers inGame 0) = W_InGame \<and> nnEval (workers inGame 0) = 0 \<and>
   threadEvents (Worker 0) (trace (sysStep sampleCfg inGame (WorkerStep 0 (GameReturns (Some 7))))) =
     threadEvents (Worker 0) (trace inGame) @ [EvGameReturned 0 (Some 7)] \<and>
   wpc (workers (sysStep sampleCfg inGame (WorkerStep 0 (GameReturns (Some 7)))) 0) = W_Enqueue \<and>
   gameData (workers (sysStep sampleCfg inGame (WorkerStep 0 (GameReturns (Some 7)))) 0) = Some 7 \<and>
   aborted gameReturned = None \<and> wpc (workers gameReturned 0) = W_Enqueue \<and>
   gameData (workers gameReturned 0) = Some 7 \<and> nnEval (workers gameReturned 0) = 1 \<and>
   dataQueue (mgr gameReturned) = [] \<and>
   threadEvents (Worker 0) (trace gameReturned) =
     [EvAcquire 0, EvFetchIdx 0, EvCountStarted 0, EvRunGame 0 0, EvAcquire 1, EvRelease 0,
      EvCallbackReturned (Some 1), EvGameReturned 1 (Some 7)] \<and>
   unsubmitted (workers gameReturned 0) = [(1, 7)] \<and>
   threadEvents (Worker 0) (trace (sysStep sampleCfg gameReturned (WorkerStep 0 InvokeCallback))) =
     [EvAcquire 0, EvFetchIdx 0, EvCountStarted 0, EvRunGame 0 0, EvAcquire 1, EvRelease 0,
      EvCallbackReturned (Some 1), EvGameReturned 1 (Some 7), EvEnqueue 1 7] \<and>
   dataQueue (mgr (sysStep sampleCfg gameReturned (WorkerStep 0 InvokeCallback))) = [(1, 7)] \<and>
   aborted gameEnqueued = None \<and> wpc (workers gameEnqueued 0) = W_Release \<and>
   nnEval (workers gameEnqueued 0) = 1 \<and>
   threadEvents (Worker 0) (trace (sysStep sampleCfg gameEnqueued (WorkerStep 0 InvokeCallback))) =
     [EvAcquire 0, EvFetchIdx 0, EvCountStarted 0, EvRunGame 0 0, EvAcquire 1, EvRelease 0,
      EvCallbackReturned (Some 1), EvGameReturned 1 (Some 7), EvEnqueue 1 7, EvRelease 1] \<and>
   wpc (workers (sysStep sampleCfg gameEnqueued (WorkerStep 0 InvokeCallback)) 0) = W_CheckStop \<and>
   threadEvents (Worker 0) (trace swappedFinished) =
     [EvAcquire 0, EvFetchIdx 0, EvCountStarted 0, EvRunGame 0 0, EvAcquire 1, EvRelease 0,
      EvCallbackReturned (Some 1), EvGameReturned 1 (Some 7), EvEnqueue 1 7, EvRelease 1] \<and>
   successively submitOrder (threadEvents (Worker 0) (trace swappedFinished)) \<and>
   concat (map submitted (threadEvents (Worker 0) (trace swappedFinished))) = [(1, 7)] \<and>
   dataQueue (mgr swappedFinished) = [(1, 7)] \<and>
   enqueuedData swappedFinished = [(1, 7)]"
proof -
  have c: "0 < numGameThreads sampleCfg"
    by (simp add: sampleCfg_def)
  note a = finished_game_enqueued_once_then_released[OF selfplay_sample,
      where cs = "schedInGame @ schedLoadNet2 @ schedSwapReturn" and t = 0
        and e = InvokeCallback and g = 7 and r = None,
      folded gameReturned_def, unfolded Let_def]
  note b = finished_game_enqueued_once_then_released[OF selfplay_sample,
      where cs = "schedInGame @ schedLoadNet2 @ schedSwapEnqueue" and t = 0
        and e = InvokeCallback and g = 7 and r = None,
      folded gameEnqueued_def, unfolded Let_def]
  note f = finished_game_enqueued_once_then_released[OF selfplay_sample,
      where cs = "schedInGame @ schedLoadNet2 @ schedSwapFinish" and t = 0
        and e = InvokeCallback and g = 7 and r = None,
      folded swappedFinished_def, unfolded Let_def]
  note i = finished_game_enqueued_once_then_released[OF selfplay_sample,
      where cs = "schedInGame" and t = 0 and e = InvokeCallback and g = 7 and r = "Some 7",
      folded inGame_def, unfolded Let_def]
  have u: "unsubmitted (workers gameReturned 0) = [(1, 7)]"
    "unsubmitted (workers swappedFinished 0) = []"
    using gameReturned_facts(2,3,4) swappedFinished_facts(3) by (simp_all add: unsubmitted_def)
  show ?thesis
    using selfplay_sample c inGame_facts(1,2,3) gameReturned_facts gameEnqueued_facts
      swappedFinished_facts u a b f i
    by simp
qed

section \<open>Shutdown\<close>

lemma workerStep_frame:
  "mainPc (workerStep cfg t env s) = mainPc s"
  "shouldStop (workerStep cfg t env s) = shouldStop s"
  "pollerSt (workerStep cfg t env s) = pollerSt s"
  "modelLoadMutex (workerStep cfg t env s) = modelLoadMutex s"
  "th \<noteq> Worker t \<Longrightarrow> threadEvents th (trace (workerStep cfg t env s)) = threadEvents th (trace s)"
  "u \<noteq> t \<Longrightarrow> workers (workerStep cfg t env s) u = workers s u"
  by (auto simp: workerStep_def w_checkStop_def w_acquire_def w_fetchIdx_def w_countStarted_def
      w_inGame_def w_callback_def w_enqueue_def w_release_def Let_def
      split: wpc.splits prod.splits option.splits sum.splits gameEnv.splits)

lemma workerStep_Done:
  "wpc (workers s u) = W_Done \<Longrightarrow> wpc (workers (workerStep cfg t env s) u) = W_Done"
  by (cases "u = t") (simp_all add: workerStep_frame, simp add: workerStep_def)

lemma sysStep_cases4:
  assumes "P s"
    and "\<And>t env. \<lbrakk>aborted s = None; t < numGameThreads cfg\<rbrakk> \<Longrightarrow> P (workerStep cfg t env s)"
    and "\<And>env b. aborted s = None \<Longrightarrow> P (pollerStep cfg env b s)"
    and "aborted s = None \<Longrightarrow> P (mainStep cfg s)"
    and "aborted s = None \<Longrightarrow> P (signalHandler s)"
  shows "P (sysStep cfg s c)"
  using assms by (cases c) (auto simp: sysStep_def)

lemma pollerStep_Done:
  "ppc (pollerSt s) = P_Done \<Longrightarrow> ppc (pollerSt (pollerStep cfg env b s)) = P_Done"
  by (simp add: pollerStep_def)

lemma shutdownInv_step:
  assumes inv: "shutdownInv cfg s"
  shows "shutdownInv cfg (sysStep cfg s c)"
proof (rule sysStep_cases4)
  show "shutdownInv cfg s" by fact
next
  fix t env
  have "list_all (\<lambda>u. wpc (workers s u) = W_Done) [0..<numGameThreads cfg] \<Longrightarrow>
        list_all (\<lambda>u. wpc (workers (workerStep cfg t env s) u) = W_Done) [0..<numGameThreads cfg]"
    by (simp add: list_all_iff workerStep_Done)
  then show "shutdownInv cfg (workerStep cfg t env s)"
    using inv by (auto simp: shutdownInv_def shutdownEvents_def workerStep_frame)
next
  fix env b
  show "shutdownInv cfg (pollerStep cfg env b s)"
    using inv
    by (auto simp: shutdownInv_def shutdownEvents_def pollerStep_frame pollerStep_Done)
next
  show "shutdownInv cfg (mainStep cfg s)"
    using inv
    by (cases "mainPc s")
       (auto simp: shutdownInv_def shutdownEvents_def mainStep_def numeral_eq_Suc)
next
  show "shutdownInv cfg (signalHandler s)"
    using inv by (auto simp: shutdownInv_def shutdownEvents_def signalHandler_def)
qed

lemma shutdownInv_run: "shutdownInv cfg s \<Longrightarrow> shutdownInv cfg (run cfg cs s)"
  by (induction cs arbitrary: s) (simp_all add: run_Nil run_Cons shutdownInv_step)

lemma isShutdownEv_load: "isAttempt e \<or> isSleep e \<Longrightarrow> \<not> isShutdownEv e"
  by (cases e) simp_all

lemma shutdownInv_selfplay:
  assumes "selfplay cfg env = Inr s0"
  shows "shutdownInv cfg s0"
proof -
  let ?r = "loadLatestNeuralNetIntoManager cfg env None emptyManager"
  have s0: "s0 = startThreads (loadedMgr ?r) (loadEvents ?r)"
    using assms by (auto simp: selfplay_def Let_def split: if_splits)
  have "filter isShutdownEv (loadEvents ?r) = []"
    by (auto simp: loadLatestNeuralNetIntoManager_def Let_def filter_empty_conv isShutdownEv_load
        dest!: makeDirsLoop_events split: option.splits)
  then show ?thesis
    unfolding s0 by (simp add: shutdownInv_def shutdownEvents_def startThreads_def)
qed

lemma upt_0_2: "[0..<2] = [0, 1::nat]"
  by (simp add: numeral_2_eq_2)

lemma cleanExit_facts:
  "aborted cleanExit = None" "mainPc cleanExit = M_Exit" "shouldStop cleanExit"
  "ppc (pollerSt cleanExit) = P_Done"
  "wpc (workers cleanExit 0) = W_Done" "wpc (workers cleanExit 1) = W_Done"
  "shutdownEvents cleanExit = [EvJoinedWorkers, EvStoreStop, EvNotify, EvJoinedPoller]"
  by (simp_all add: sample_defs run_Cons run_Nil step_defs mgr_defs eval_defs shutdownEvents_def
      upt_0_2)

text \<open>
  C6. After every schedule the shutdown steps the main thread has taken are an initial
  part of: workers joined, flag stored, poller notified, poller joined. Once the workers
  are joined every game thread is done; the store of line 343 sets the flag whatever it
  was; from the store on the flag is set, so at each of its checks (lines 303, 315 and
  the predicate of line 320) the poller takes the way out; and the join of the poller
  has returned only if the poller is done.
\<close>

theorem flag_stored_before_notify_and_join:
  assumes "selfplay cfg env = Inr s0"
  shows
    "(let s = run cfg cs s0
      in shutdownEvents s =
           take (mainProgress (mainPc s)) [EvJoinedWorkers, EvStoreStop, EvNotify, EvJoinedPoller] \<and>
         (EvJoinedWorkers \<in> set (shutdownEvents s) \<longrightarrow>
            list_all (\<lambda>t. wpc (workers s t) = W_Done) [0..<numGameThreads cfg]) \<and>
         (aborted s = None \<and> mainPc s = M_StoreStop \<longrightarrow>
            shouldStop (sysStep cfg s MainStep) \<and>
            shutdownEvents (sysStep cfg s MainStep) = [EvJoinedWorkers, EvStoreStop]) \<and>
         (EvStoreStop \<in> set (shutdownEvents s) \<longrightarrow> shouldStop s) \<and>
         (EvStoreStop \<in> set (shutdownEvents s) \<and> aborted s = None \<longrightarrow>
            (ppc (pollerSt s) = P_CheckStop \<or> ppc (pollerSt s) = P_CheckStop2 \<longrightarrow>
               ppc (pollerSt (sysStep cfg s (PollerStep penv b))) = P_FinalNames) \<and>
            (ppc (pollerSt s) = P_WaitPred \<longrightarrow>
               ppc (pollerSt (sysStep cfg s (PollerStep penv b))) = P_CheckStop)) \<and>
         (EvJoinedPoller \<in> set (shutdownEvents s) \<longrightarrow> ppc (pollerSt s) = P_Done))"
proof -
  let ?s = "run cfg cs s0"
  have inv: "shutdownInv cfg ?s"
    by (rule shutdownInv_run[OF shutdownInv_selfplay[OF assms]])
  then have ev: "shutdownEvents ?s =
      take (mainProgress (mainPc ?s)) [EvJoinedWorkers, EvStoreStop, EvNotify, EvJoinedPoller]"
    and dn: "mainPc ?s \<noteq> M_JoinWorkers \<Longrightarrow>
      list_all (\<lambda>t. wpc (workers ?s t) = W_Done) [0..<numGameThreads cfg]"
    and stop: "2 \<le> mainProgress (mainPc ?s) \<Longrightarrow> shouldStop ?s"
    and ex: "mainPc ?s = M_Exit \<Longrightarrow> ppc (pollerSt ?s) = P_Done"
    by (simp_all add: shutdownInv_def)
  have 1: "EvJoinedWorkers \<in> set (shutdownEvents ?s) \<Longrightarrow> mainPc ?s \<noteq> M_JoinWorkers"
    unfolding ev by (cases "mainPc ?s") simp_all
  have 2: "EvStoreStop \<in> set (shutdownEvents ?s) \<Longrightarrow> 2 \<le> mainProgress (mainPc ?s)"
    unfolding ev by (cases "mainPc ?s") (simp_all add: numeral_eq_Suc)
  have 3: "EvJoinedPoller \<in> set (shutdownEvents ?s) \<Longrightarrow> mainPc ?s = M_Exit"
    unfolding ev by (cases "mainPc ?s") (simp_all add: numeral_eq_Suc)
  have store: "shouldStop (sysStep cfg ?s MainStep) \<and>
      shutdownEvents (sysStep cfg ?s MainStep) = [EvJoinedWorkers, EvStoreStop]"
    if "aborted ?s = None" "mainPc ?s = M_StoreStop"
    using that ev by (simp add: sysStep_def mainStep_def shutdownEvents_def)
  have poll: "(ppc (pollerSt ?s) = P_CheckStop \<or> ppc (pollerSt ?s) = P_CheckStop2 \<longrightarrow>
               ppc (pollerSt (sysStep cfg ?s (PollerStep penv b))) = P_FinalNames) \<and>
            (ppc (pollerSt ?s) = P_WaitPred \<longrightarrow>
               ppc (pollerSt (sysStep cfg ?s (PollerStep penv b))) = P_CheckStop)"
    if "shouldStop ?s" "aborted ?s = None"
    using that by (auto simp: sysStep_def pollerStep_def)
  show ?thesis
    unfolding Let_def
  proof (intro conjI impI)
    show "shutdownEvents ?s =
      take (mainProgress (mainPc ?s)) [EvJoinedWorkers, EvStoreStop, EvNotify, EvJoinedPoller]"
      by (rule ev)
    show "list_all (\<lambda>t. wpc (workers ?s t) = W_Done) [0..<numGameThreads cfg]"
      if "EvJoinedWorkers \<in> set (shutdownEvents ?s)"
      by (rule dn[OF 1[OF that]])
    show "shouldStop (sysStep cfg ?s MainStep)"
      if "aborted ?s = None \<and> mainPc ?s = M_StoreStop"
      using store that by simp
    show "shutdownEvents (sysStep cfg ?s MainStep) = [EvJoinedWorkers, EvStoreStop]"
      if "aborted ?s = None \<and> mainPc ?s = M_StoreStop"
      using store that by simp
    show "shouldStop ?s" if "EvStoreStop \<in> set (shutdownEvents ?s)"
      by (rule stop[OF 2[OF that]])
    show "ppc (pollerSt (sysStep cfg ?s (PollerStep penv b))) = P_FinalNames"
      if "EvStoreStop \<in> set (shutdownEvents ?s) \<and> aborted ?s = None"
        and "ppc (pollerSt ?s) = P_CheckStop \<or> ppc (pollerSt ?s) = P_CheckStop2"
      using poll[OF stop[OF 2]] that by simp
    show "ppc (pollerSt (sysStep cfg ?s (PollerStep penv b))) = P_CheckStop"
      if "EvStoreStop \<in> set (shutdownEvents ?s) \<and> aborted ?s = None"
        and "ppc (pollerSt ?s) = P_WaitPred"
      using poll[OF stop[OF 2]] that by simp
    show "ppc (pollerSt ?s) = P_Done" if "EvJoinedPoller \<in> set (shutdownEvents ?s)"
      by (rule ex[OF 3[OF that]])
  qed
qed

theorem flag_stored_before_notify_and_join_witness:
  "selfplay sampleCfg (envFound ''net1'' True) = Inr sampleStart \<and>
   mainPc cleanExit = M_Exit \<and>
   shutdownEvents cleanExit = [EvJoinedWorkers, EvStoreStop, EvNotify, EvJoinedPoller] \<and>
   shouldStop cleanExit \<and> ppc (pollerSt cleanExit) = P_Done \<and>
   list_all (\<lambda>t. wpc (workers cleanExit t) = W_Done) [0..<numGameThreads sampleCfg]"
  using selfplay_sample cleanExit_facts(2,7)
    flag_stored_before_notify_and_join[OF selfplay_sample, of schedShutdown,
      folded cleanExit_def]
  by (simp add: Let_def sampleCfg_def upt_0_2)

section \<open>Game indices\<close>

lemma wrap64_id: "- (2 ^ 63) \<le> x \<Longrightarrow> x < 2 ^ 63 \<Longrightarrow> wrap64 x = x"
  by (simp add: wrap64_def)

lemma overdrawn_bound: "card (overdrawn cfg s) \<le> numGameThreads cfg"
proof -
  have "overdrawn cfg s \<subseteq> {..<numGameThreads cfg}"
    by (auto simp: overdrawn_def)
  then have "card (overdrawn cfg s) \<le> card {..<numGameThreads cfg}"
    by (intro card_mono) simp_all
  then show ?thesis by simp
qed

lemma overdrawn_finite: "finite (overdrawn cfg s)"
  by (rule finite_subset[of _ "{..<numGameThreads cfg}"]) (auto simp: overdrawn_def)

lemma idxInv_D:
  assumes "idxInv cfg s"
  shows "0 \<le> numGamesStarted s"
    "numGamesStarted s \<le> maxGamesTotal cfg + int (card (overdrawn cfg s))"
    "\<And>t. t < numGameThreads cfg \<Longrightarrow> idxLocal cfg (workers s t)"
    "distinct (runGameIdxs s)"
    "\<And>i. (i \<in> set (runGameIdxs s) \<or>
           (\<exists>t < numGameThreads cfg. pendingIdx cfg (workers s t) \<and> gameIdx (workers s t) = i))
          \<longleftrightarrow> 0 \<le> i \<and> i < min (numGamesStarted s) (maxGamesTotal cfg)"
    "\<And>t. t < numGameThreads cfg \<Longrightarrow> pendingIdx cfg (workers s t) \<Longrightarrow>
          gameIdx (workers s t) \<notin> set (runGameIdxs s)"
    "\<And>t u. t < numGameThreads cfg \<Longrightarrow> u < numGameThreads cfg \<Longrightarrow>
        pendingIdx cfg (workers s t) \<Longrightarrow> pendingIdx cfg (workers s u) \<Longrightarrow>
        gameIdx (workers s t) = gameIdx (workers s u) \<Longrightarrow> t = u"
  using assms unfolding idxInv_def by blast+

lemma idxInv_I:
  assumes "0 \<le> numGamesStarted s"
    "numGamesStarted s \<le> maxGamesTotal cfg + int (card (overdrawn cfg s))"
    "\<And>t. t < numGameThreads cfg \<Longrightarrow> idxLocal cfg (workers s t)"
    "distinct (runGameIdxs s)"
    "\<And>i. (i \<in> set (runGameIdxs s) \<or>
           (\<exists>t < numGameThreads cfg. pendingIdx cfg (workers s t) \<and> gameIdx (workers s t) = i))
          \<longleftrightarrow> 0 \<le> i \<and> i < min (numGamesStarted s) (maxGamesTotal cfg)"
    "\<And>t. t < numGameThreads cfg \<Longrightarrow> pendingIdx cfg (workers s t) \<Longrightarrow>
          gameIdx (workers s t) \<notin> set (runGameIdxs s)"
    "\<And>t u. t < numGameThreads cfg \<Longrightarrow> u < numGameThreads cfg \<Longrightarrow>
        pendingIdx cfg (workers s t) \<Longrightarrow> pendingIdx cfg (workers s u) \<Longrightarrow>
        gameIdx (workers s t) = gameIdx (workers s u) \<Longrightarrow> t = u"
  shows "idxInv cfg s"
  using assms unfolding idxInv_def by blast

lemma idxInv_local:
  assumes inv: "idxInv cfg s" and t: "t < numGameThreads cfg"
    and others: "\<And>u. u \<noteq> t \<Longrightarrow> workers s' u = workers s u"
    and c: "numGamesStarted s' = numGamesStarted s"
    and r: "runGameIdxs s' = runGameIdxs s"
    and g: "gameIdx (workers s' t) = gameIdx (workers s t)"
    and p: "pendingIdx cfg (workers s' t) = pendingIdx cfg (workers s t)"
    and l: "idxLocal cfg (workers s' t)"
  shows "idxInv cfg s'"
proof -
  note d = idxInv_D[OF inv]
  have eg: "gameIdx (workers s' u) = gameIdx (workers s u)" for u
    using others[of u] g by (cases "u = t") simp_all
  have ep: "pendingIdx cfg (workers s' u) = pendingIdx cfg (workers s u)" for u
    using others[of u] p by (cases "u = t") simp_all
  have ov: "overdrawn cfg s' = overdrawn cfg s"
    by (simp add: overdrawn_def eg)
  have loc: "\<forall>u < numGameThreads cfg. idxLocal cfg (workers s' u)"
  proof (intro allI impI)
    fix u assume "u < numGameThreads cfg"
    then show "idxLocal cfg (workers s' u)"
      using d(3)[of u] others[of u] l by (cases "u = t") simp_all
  qed
  have rest: "0 \<le> numGamesStarted s \<and>
     numGamesStarted s \<le> maxGamesTotal cfg + int (card (overdrawn cfg s)) \<and>
     distinct (runGameIdxs s) \<and>
     (\<forall>i. (i \<in> set (runGameIdxs s) \<or>
           (\<exists>t < numGameThreads cfg. pendingIdx cfg (workers s t) \<and> gameIdx (workers s t) = i))
          \<longleftrightarrow> 0 \<le> i \<and> i < min (numGamesStarted s) (maxGamesTotal cfg)) \<and>
     (\<forall>t < numGameThreads cfg.
        pendingIdx cfg (workers s t) \<longrightarrow> gameIdx (workers s t) \<notin> set (runGameIdxs s)) \<and>
     (\<forall>t < numGameThreads cfg. \<forall>u < numGameThreads cfg.
        pendingIdx cfg (workers s t) \<and> pendingIdx cfg (workers s u) \<and>
        gameIdx (workers s t) = gameIdx (workers s u) \<longrightarrow> t = u)"
    using inv unfolding idxInv_def by blast
  show ?thesis
    unfolding idxInv_def c r eg ep ov using loc rest by blast
qed

lemma runGameIdxs_steps:
  "runGameIdxs (w_checkStop t s) = runGameIdxs s"
  "runGameIdxs (w_acquire t s) = runGameIdxs s"
  "runGameIdxs (w_fetchIdx t s) = runGameIdxs s"
  "runGameIdxs (w_inGame cfg t env s) = runGameIdxs s"
  "runGameIdxs (w_callback t new s) = runGameIdxs s"
  "runGameIdxs (w_enqueue t s) = runGameIdxs s"
  "runGameIdxs (w_release t s) = runGameIdxs s"
  "runGameIdxs (w_countStarted cfg t s) =
     runGameIdxs s @
       (if gameIdx (workers s t) < maxGamesTotal cfg then [gameIdx (workers s t)] else [])"
  by (simp_all add: runGameIdxs_def w_checkStop_def w_acquire_def w_fetchIdx_def w_inGame_def
      w_callback_def w_enqueue_def w_release_def w_countStarted_def Let_def
      split: prod.splits option.splits sum.splits gameEnv.splits)

lemma counter_steps:
  "numGamesStarted (w_checkStop t s) = numGamesStarted s"
  "numGamesStarted (w_acquire t s) = numGamesStarted s"
  "numGamesStarted (w_countStarted cfg t s) = numGamesStarted s"
  "numGamesStarted (w_inGame cfg t env s) = numGamesStarted s"
  "numGamesStarted (w_callback t new s) = numGamesStarted s"
  "numGamesStarted (w_enqueue t s) = numGamesStarted s"
  "numGamesStarted (w_release t s) = numGamesStarted s"
  by (simp_all add: w_checkStop_def w_acquire_def w_inGame_def
      w_callback_def w_enqueue_def w_release_def w_countStarted_def Let_def
      split: prod.splits option.splits sum.splits gameEnv.splits)

lemma own_steps:
  "gameIdx (workers (w_checkStop t s) t) = gameIdx (workers s t)"
  "wpc (workers (w_checkStop t s) t) = W_Done \<or> wpc (workers (w_checkStop t s) t) = W_Acquire"
  "gameIdx (workers (w_acquire t s) t) = gameIdx (workers s t)"
  "wpc (workers s t) = W_Acquire \<Longrightarrow>
     wpc (workers (w_acquire t s) t) = W_Acquire \<or> wpc (workers (w_acquire t s) t) = W_FetchIdx"
  "gameIdx (workers (w_inGame cfg t env s) t) = gameIdx (workers s t)"
  "wpc (workers s t) = W_InGame \<Longrightarrow> wpc (workers (w_inGame cfg t env s) t) \<noteq> W_CountStarted"
  "gameIdx (workers (w_callback t new s) t) = gameIdx (workers s t)"
  "wpc (workers s t) = W_Callback new \<Longrightarrow> wpc (workers (w_callback t new s) t) \<noteq> W_CountStarted"
  "gameIdx (workers (w_enqueue t s) t) = gameIdx (workers s t)"
  "gameData (workers (w_enqueue t s) t) = gameData (workers s t)"
  "wpc (workers (w_enqueue t s) t) = W_Release"
  "gameIdx (workers (w_release t s) t) = gameIdx (workers s t)"
  "gameData (workers (w_release t s) t) = gameData (workers s t)"
  "wpc (workers s t) = W_Release \<Longrightarrow>
     wpc (workers (w_release t s) t) = W_Release \<or>
     wpc (workers (w_release t s) t) = (if gameData (workers s t) \<noteq> None then W_CheckStop else W_Done)"
  by (auto simp: w_checkStop_def w_acquire_def w_inGame_def w_callback_def w_enqueue_def
      w_release_def Let_def split: prod.splits option.splits sum.splits gameEnv.splits)

lemma idxInv_plain:
  assumes inv: "idxInv cfg s" and t: "t < numGameThreads cfg"
  shows "wpc (workers s t) = W_CheckStop \<Longrightarrow> idxInv cfg (w_checkStop t s)"
    "wpc (workers s t) = W_Acquire \<Longrightarrow> idxInv cfg (w_acquire t s)"
    "wpc (workers s t) = W_InGame \<Longrightarrow> idxInv cfg (w_inGame cfg t env s)"
    "wpc (workers s t) = W_Callback new \<Longrightarrow> idxInv cfg (w_callback t new s)"
    "wpc (workers s t) = W_Enqueue \<Longrightarrow> idxInv cfg (w_enqueue t s)"
    "wpc (workers s t) = W_Release \<Longrightarrow> idxInv cfg (w_release t s)"
proof -
  note l = idxInv_D(3)[OF inv t, unfolded idxLocal_def]
  {
    assume pc: "wpc (workers s t) = W_CheckStop"
    show "idxInv cfg (w_checkStop t s)"
    proof (rule idxInv_local[OF inv t])
      show "pendingIdx cfg (workers (w_checkStop t s) t) = pendingIdx cfg (workers s t)"
        using pc own_steps(2)[of t s] by (auto simp: pendingIdx_def)
      show "idxLocal cfg (workers (w_checkStop t s) t)"
        using l pc own_steps(2)[of t s] by (auto simp: idxLocal_def own_steps(1))
    qed (simp_all add: worker_other counter_steps runGameIdxs_steps own_steps)
  }
  {
    assume pc: "wpc (workers s t) = W_Acquire"
    show "idxInv cfg (w_acquire t s)"
    proof (rule idxInv_local[OF inv t])
      show "pendingIdx cfg (workers (w_acquire t s) t) = pendingIdx cfg (workers s t)"
        using pc own_steps(4)[OF pc] by (auto simp: pendingIdx_def)
      show "idxLocal cfg (workers (w_acquire t s) t)"
        using l pc own_steps(4)[OF pc] by (auto simp: idxLocal_def own_steps(3))
    qed (simp_all add: worker_other counter_steps runGameIdxs_steps own_steps)
  }
  {
    assume pc: "wpc (workers s t) = W_InGame"
    show "idxInv cfg (w_inGame cfg t env s)"
    proof (rule idxInv_local[OF inv t])
      show "pendingIdx cfg (workers (w_inGame cfg t env s) t) = pendingIdx cfg (workers s t)"
        using pc own_steps(6)[OF pc, of cfg env] by (auto simp: pendingIdx_def)
      show "idxLocal cfg (workers (w_inGame cfg t env s) t)"
        using l pc own_steps(6)[OF pc, of cfg env] by (auto simp: idxLocal_def own_steps(5))
    qed (simp_all add: worker_other counter_steps runGameIdxs_steps own_steps)
  }
  {
    assume pc: "wpc (workers s t) = W_Callback new"
    show "idxInv cfg (w_callback t new s)"
    proof (rule idxInv_local[OF inv t])
      show "pendingIdx cfg (workers (w_callback t new s) t) = pendingIdx cfg (workers s t)"
        using pc own_steps(8)[OF pc] by (auto simp: pendingIdx_def)
      show "idxLocal cfg (workers (w_callback t new s) t)"
        using l pc own_steps(8)[OF pc] by (auto simp: idxLocal_def own_steps(7))
    qed (simp_all add: worker_other counter_steps runGameIdxs_steps own_steps)
  }
  {
    assume pc: "wpc (workers s t) = W_Enqueue"
    show "idxInv cfg (w_enqueue t s)"
    proof (rule idxInv_local[OF inv t])
      show "pendingIdx cfg (workers (w_enqueue t s) t) = pendingIdx cfg (workers s t)"
        using pc by (auto simp: pendingIdx_def own_steps)
      show "idxLocal cfg (workers (w_enqueue t s) t)"
        using l pc by (auto simp: idxLocal_def own_steps)
    qed (simp_all add: worker_other counter_steps runGameIdxs_steps own_steps)
  }
  {
    assume pc: "wpc (workers s t) = W_Release"
    show "idxInv cfg (w_release t s)"
    proof (rule idxInv_local[OF inv t])
      show "pendingIdx cfg (workers (w_release t s) t) = pendingIdx cfg (workers s t)"
        using pc own_steps(14)[OF pc] by (auto simp: pendingIdx_def split: if_splits)
      show "idxLocal cfg (workers (w_release t s) t)"
        using l pc own_steps(14)[OF pc]
        by (auto simp: idxLocal_def own_steps(12,13) split: if_splits)
    qed (simp_all add: worker_other counter_steps runGameIdxs_steps own_steps)
  }
qed

lemma idxInv_fetchIdx:
  assumes inv: "idxInv cfg s" and t: "t < numGameThreads cfg"
    and pc: "wpc (workers s t) = W_FetchIdx"
    and mx: "maxGamesTotal cfg \<le> 2 ^ 62" and n: "numGameThreads cfg \<le> 16384"
  shows "idxInv cfg (w_fetchIdx t s)"
proof -
  let ?c = "numGamesStarted s"
  let ?mx = "maxGamesTotal cfg"
  let ?N = "numGameThreads cfg"
  let ?s' = "w_fetchIdx t s"
  note d = idxInv_D[OF inv]
  have old: "gameIdx (workers s t) < ?mx"
    using d(3)[OF t] pc by (auto simp: idxLocal_def)
  have npend: "\<not> pendingIdx cfg (workers s t)"
    using pc by (simp add: pendingIdx_def)
  have "int (card (overdrawn cfg s)) \<le> 16384"
    using overdrawn_bound[of cfg s] n by linarith
  then have "?c + 1 < 2 ^ 63"
    using d(2) mx by simp
  then have c': "numGamesStarted ?s' = ?c + 1"
    using d(1) by (simp add: w_fetchIdx_def wrap64_id)
  have wt: "workers ?s' t = (workers s t)\<lparr>gameData := None, gameIdx := ?c, wpc := W_CountStarted\<rparr>"
    by (simp add: w_fetchIdx_def)
  have wo: "u \<noteq> t \<Longrightarrow> workers ?s' u = workers s u" for u
    by (simp add: worker_other)
  have r: "runGameIdxs ?s' = runGameIdxs s"
    by (rule runGameIdxs_steps)
  have pt: "pendingIdx cfg (workers ?s' t) \<longleftrightarrow> ?c < ?mx"
    by (simp add: wt pendingIdx_def)
  have po: "u \<noteq> t \<Longrightarrow> pendingIdx cfg (workers ?s' u) = pendingIdx cfg (workers s u)" for u
    by (simp add: wo)
  have below: "i < ?c" if "u < ?N" "pendingIdx cfg (workers s u)" "gameIdx (workers s u) = i" for u i
    using d(5)[of i] that by auto
  have inv_below: "i < ?c" if "i \<in> set (runGameIdxs s)" for i
    using d(5)[of i] that by auto
  have ov: "overdrawn cfg ?s' = (if ?mx \<le> ?c then insert t (overdrawn cfg s) else overdrawn cfg s)"
  proof -
    have "u \<in> overdrawn cfg ?s' \<longleftrightarrow>
          u \<in> (if ?mx \<le> ?c then insert t (overdrawn cfg s) else overdrawn cfg s)" for u
      using t old wo[of u] by (cases "u = t") (auto simp: overdrawn_def wt)
    then show ?thesis by blast
  qed
  have tn: "t \<notin> overdrawn cfg s"
    using old by (simp add: overdrawn_def)
  have cardov: "card (overdrawn cfg ?s') = (if ?mx \<le> ?c then card (overdrawn cfg s) + 1 else card (overdrawn cfg s))"
    unfolding ov using tn overdrawn_finite[of cfg s] by simp
  show ?thesis
  proof (rule idxInv_I)
    show "0 \<le> numGamesStarted ?s'"
      using d(1) c' by simp
    show "numGamesStarted ?s' \<le> ?mx + int (card (overdrawn cfg ?s'))"
      using d(2) c' cardov by auto
  next
    fix u assume u: "u < ?N"
    show "idxLocal cfg (workers ?s' u)"
      using d(3)[OF u] wo[of u] by (cases "u = t") (simp_all add: wt idxLocal_def)
  next
    show "distinct (runGameIdxs ?s')"
      using d(4) r by simp
  next
    fix i
    have "(\<exists>u< ?N. pendingIdx cfg (workers ?s' u) \<and> gameIdx (workers ?s' u) = i) \<longleftrightarrow>
          (\<exists>u< ?N. pendingIdx cfg (workers s u) \<and> gameIdx (workers s u) = i) \<or> (?c < ?mx \<and> i = ?c)"
      (is "?L \<longleftrightarrow> ?R")
    proof
      assume ?L
      then obtain u where u: "u < ?N" "pendingIdx cfg (workers ?s' u)" "gameIdx (workers ?s' u) = i"
        by blast
      show ?R
      proof (cases "u = t")
        case True
        then show ?thesis using u pt by (simp add: wt)
      next
        case False
        then show ?thesis using u po[OF False] wo[OF False] by auto
      qed
    next
      assume ?R
      then show ?L
      proof
        assume "\<exists>u< ?N. pendingIdx cfg (workers s u) \<and> gameIdx (workers s u) = i"
        then obtain u where u: "u < ?N" "pendingIdx cfg (workers s u)" "gameIdx (workers s u) = i"
          by blast
        then have "u \<noteq> t" using npend by auto
        then show ?L using u po[of u] wo[of u] by auto
      next
        assume "?c < ?mx \<and> i = ?c"
        then show ?L using t pt by (auto simp: wt)
      qed
    qed
    moreover have "(0 \<le> i \<and> i < min (?c + 1) ?mx) \<longleftrightarrow>
                   (0 \<le> i \<and> i < min ?c ?mx) \<or> (?c < ?mx \<and> i = ?c)"
      using d(1) by auto
    ultimately show "(i \<in> set (runGameIdxs ?s') \<or>
           (\<exists>u< ?N. pendingIdx cfg (workers ?s' u) \<and> gameIdx (workers ?s' u) = i))
          \<longleftrightarrow> 0 \<le> i \<and> i < min (numGamesStarted ?s') ?mx"
      unfolding r c' using d(5)[of i] by blast
  next
    fix u assume u: "u < ?N" and p: "pendingIdx cfg (workers ?s' u)"
    show "gameIdx (workers ?s' u) \<notin> set (runGameIdxs ?s')"
    proof (cases "u = t")
      case True
      then show ?thesis using inv_below[of ?c] by (auto simp: wt r)
    next
      case False
      then show ?thesis using d(6)[OF u] p po[OF False] wo[OF False] by (simp add: r)
    qed
  next
    fix u v assume u: "u < ?N" and v: "v < ?N"
      and pu: "pendingIdx cfg (workers ?s' u)" and pv: "pendingIdx cfg (workers ?s' v)"
      and e: "gameIdx (workers ?s' u) = gameIdx (workers ?s' v)"
    show "u = v"
    proof (cases "u = t"; cases "v = t")
      assume "u = t" "v = t"
      then show ?thesis by simp
    next
      assume a: "u = t" "v \<noteq> t"
      then have "pendingIdx cfg (workers s v)" "gameIdx (workers s v) = ?c"
        using pv e po[of v] wo[of v] by (simp_all add: wt)
      then show ?thesis using below[OF v, of ?c] by simp
    next
      assume a: "u \<noteq> t" "v = t"
      then have "pendingIdx cfg (workers s u)" "gameIdx (workers s u) = ?c"
        using pu e po[of u] wo[of u] by (simp_all add: wt)
      then show ?thesis using below[OF u, of ?c] by simp
    next
      assume a: "u \<noteq> t" "v \<noteq> t"
      then show ?thesis
        using d(7)[OF u v] pu pv e po[of u] po[of v] wo[of u] wo[of v] by simp
    qed
  qed
qed

lemma idxInv_countStarted:
  assumes inv: "idxInv cfg s" and t: "t < numGameThreads cfg"
    and pc: "wpc (workers s t) = W_CountStarted"
  shows "idxInv cfg (w_countStarted cfg t s)"
proof -
  let ?mx = "maxGamesTotal cfg"
  let ?N = "numGameThreads cfg"
  let ?s' = "w_countStarted cfg t s"
  let ?i = "gameIdx (workers s t)"
  note d = idxInv_D[OF inv]
  have nodata: "gameData (workers s t) = None"
    using d(3)[OF t] pc by (simp add: idxLocal_def)
  have wt: "workers ?s' t = (workers s t)\<lparr>wpc := (if ?i < ?mx then W_InGame else W_Enqueue)\<rparr>"
    by (simp add: w_countStarted_def Let_def)
  have wo: "u \<noteq> t \<Longrightarrow> workers ?s' u = workers s u" for u
    by (simp add: worker_other)
  have c: "numGamesStarted ?s' = numGamesStarted s"
    by (rule counter_steps)
  have loc: "idxLocal cfg (workers ?s' t)"
    using nodata by (simp add: wt idxLocal_def)
  show ?thesis
  proof (cases "?i < ?mx")
    case False
    have r: "runGameIdxs ?s' = runGameIdxs s"
      using False by (simp add: runGameIdxs_steps)
    show ?thesis
      using False pc loc
      by (intro idxInv_local[OF inv t wo c r]) (simp_all add: wt pendingIdx_def)
  next
    case True
    have r: "runGameIdxs ?s' = runGameIdxs s @ [?i]"
      using True by (simp add: runGameIdxs_steps)
    have pt: "pendingIdx cfg (workers s t)"
      using pc True by (simp add: pendingIdx_def)
    have npt': "\<not> pendingIdx cfg (workers ?s' t)"
      using True by (simp add: wt pendingIdx_def)
    have ov: "overdrawn cfg ?s' = overdrawn cfg s"
    proof -
      have "gameIdx (workers ?s' u) = gameIdx (workers s u)" for u
        using wo[of u] by (cases "u = t") (simp_all add: wt)
      then show ?thesis by (simp add: overdrawn_def)
    qed
    show ?thesis
    proof (rule idxInv_I)
      show "0 \<le> numGamesStarted ?s'"
        using d(1) c by simp
      show "numGamesStarted ?s' \<le> ?mx + int (card (overdrawn cfg ?s'))"
        using d(2) c ov by simp
    next
      fix u assume u: "u < ?N"
      show "idxLocal cfg (workers ?s' u)"
        using d(3)[OF u] wo[of u] loc by (cases "u = t") simp_all
    next
      show "distinct (runGameIdxs ?s')"
        using d(4) d(6)[OF t pt] by (simp add: r)
    next
      fix i
      have "(i = ?i \<or> (\<exists>u< ?N. pendingIdx cfg (workers ?s' u) \<and> gameIdx (workers ?s' u) = i)) \<longleftrightarrow>
            (\<exists>u< ?N. pendingIdx cfg (workers s u) \<and> gameIdx (workers s u) = i)"
        (is "?L \<longleftrightarrow> ?R")
      proof
        assume ?L
        then show ?R
        proof
          assume "i = ?i"
          then show ?R using t pt by blast
        next
          assume "\<exists>u< ?N. pendingIdx cfg (workers ?s' u) \<and> gameIdx (workers ?s' u) = i"
          then obtain u where u: "u < ?N" "pendingIdx cfg (workers ?s' u)"
              "gameIdx (workers ?s' u) = i"
            by blast
          then have "u \<noteq> t" using npt' by auto
          then show ?R using u wo[of u] by auto
        qed
      next
        assume ?R
        then obtain u where u: "u < ?N" "pendingIdx cfg (workers s u)" "gameIdx (workers s u) = i"
          by blast
        show ?L
        proof (cases "u = t")
          case True
          then show ?thesis using u by simp
        next
          case False
          then show ?thesis using u wo[OF False] by auto
        qed
      qed
      then show "(i \<in> set (runGameIdxs ?s') \<or>
           (\<exists>u< ?N. pendingIdx cfg (workers ?s' u) \<and> gameIdx (workers ?s' u) = i))
          \<longleftrightarrow> 0 \<le> i \<and> i < min (numGamesStarted ?s') ?mx"
        unfolding r c using d(5)[of i] by auto
    next
      fix u assume u: "u < ?N" and p: "pendingIdx cfg (workers ?s' u)"
      have ne: "u \<noteq> t" using p npt' by auto
      then have pu: "pendingIdx cfg (workers s u)" using p wo[of u] by simp
      have "gameIdx (workers s u) \<noteq> ?i"
        using d(7)[OF u t pu pt] ne by blast
      then show "gameIdx (workers ?s' u) \<notin> set (runGameIdxs ?s')"
        using d(6)[OF u pu] wo[OF ne] by (simp add: r)
    next
      fix u v assume u: "u < ?N" and v: "v < ?N"
        and pu: "pendingIdx cfg (workers ?s' u)" and pv: "pendingIdx cfg (workers ?s' v)"
        and e: "gameIdx (workers ?s' u) = gameIdx (workers ?s' v)"
      have "u \<noteq> t" "v \<noteq> t" using pu pv npt' by auto
      then show "u = v"
        using d(7)[OF u v] pu pv e wo[of u] wo[of v] by simp
    qed
  qed
qed

lemma idxInv_frame:
  assumes inv: "idxInv cfg s" and w: "workers s' = workers s"
    and c: "numGamesStarted s' = numGamesStarted s" and r: "runGameIdxs s' = runGameIdxs s"
  shows "idxInv cfg s'"
  using inv unfolding idxInv_def overdrawn_def w c r .

lemma idxInv_step:
  assumes inv: "idxInv cfg s"
    and mx: "maxGamesTotal cfg \<le> 2 ^ 62" and n: "numGameThreads cfg \<le> 16384"
  shows "idxInv cfg (sysStep cfg s c)"
proof (rule sysStep_cases)
  fix env b
  show "idxInv cfg (pollerStep cfg env b s)"
    by (rule idxInv_frame[OF inv]) (simp_all add: pollerStep_frame pollerStep_runGameIdxs)
next
  show "idxInv cfg (mainStep cfg s)"
    by (rule idxInv_frame[OF inv]) (simp_all add: mainStep_frame)
next
  show "idxInv cfg (signalHandler s)"
    by (rule idxInv_frame[OF inv]) (simp_all add: signalHandler_frame)
qed (simp_all add: inv idxInv_plain[OF inv] idxInv_fetchIdx[OF inv _ _ mx n]
      idxInv_countStarted[OF inv])

lemma idxInv_run:
  assumes "idxInv cfg s" "maxGamesTotal cfg \<le> 2 ^ 62" "numGameThreads cfg \<le> 16384"
  shows "idxInv cfg (run cfg cs s)"
  using assms(1)
  by (induction cs arbitrary: s) (simp_all add: run_Nil run_Cons idxInv_step[OF _ assms(2,3)])

lemma idxInv_selfplay:
  assumes "selfplay cfg env = Inr s0" and "1 \<le> maxGamesTotal cfg"
  shows "idxInv cfg s0"
proof -
  let ?r = "loadLatestNeuralNetIntoManager cfg env None emptyManager"
  have s0: "s0 = startThreads (loadedMgr ?r) (loadEvents ?r)"
    using assms by (auto simp: selfplay_def Let_def split: if_splits)
  have "concat (map runGameIdx (map (Pair MainThread) (loadEvents ?r))) = []"
    by (auto simp: loadLatestNeuralNetIntoManager_def Let_def runGameIdx_Nil
        dest!: makeDirsLoop_events split: option.splits)
  then have r: "runGameIdxs s0 = []"
    unfolding s0 by (simp add: runGameIdxs_def startThreads_def)
  have ov: "overdrawn cfg s0 = {}"
    using assms(2) unfolding s0 by (simp add: overdrawn_def startThreads_def initWorker_def)
  show ?thesis
    unfolding idxInv_def r ov using assms(2)
    by (simp add: s0 startThreads_def initWorker_def idxLocal_def pendingIdx_def)
qed

lemma release_fields:
  assumes "release h m = Inr m'"
  shows "gamesStarted m' = gamesStarted m" "dataQueue m' = dataQueue m"
  using assms by (auto simp: release_def destroyHandle_def Let_def split: if_splits)

lemma ceiling_steps:
  assumes ref: "refInv cfg s" and t: "t < numGameThreads cfg" and ab: "aborted s = None"
    and pc: "wpc (workers s t) = W_CountStarted"
    and ge: "maxGamesTotal cfg \<le> gameIdx (workers s t)"
    and nodata: "gameData (workers s t) = None"
  shows "\<exists>m'. release (nnEval (workers s t)) (countOneGameStarted (nnEval (workers s t)) (mgr s)) = Inr m' \<and>
     run cfg [WorkerStep t e1, WorkerStep t e2, WorkerStep t e3] s =
       logEvents (Worker t) [EvCountStarted (nnEval (workers s t)), EvRelease (nnEval (workers s t))]
         (setWorker t ((workers s t)\<lparr>wpc := W_Done\<rparr>) (s\<lparr>mgr := m'\<rparr>))"
proof -
  let ?w = "workers s t"
  let ?h = "nnEval ?w"
  let ?m1 = "countOneGameStarted ?h (mgr s)"
  have "refs ?w ?h = 1"
    using pc by (simp add: refs_def)
  then have "0 < totalRefs cfg s ?h"
    using totalRefs_ge[OF t, of s ?h] by simp
  then have "?h \<in> set (handles (mgr s))"
    using mgrOK_D(8)[OF ref[unfolded refInv_def]] by blast
  then have "?h \<in> set (handles ?m1)"
    by (simp add: countOneGameStarted_def)
  then obtain m' where r: "release ?h ?m1 = Inr m'"
    by (auto simp: release_def Let_def)
  let ?s1 = "logEvents (Worker t) [EvCountStarted ?h]
      (setWorker t (?w\<lparr>wpc := W_Enqueue\<rparr>) (s\<lparr>mgr := ?m1\<rparr>))"
  have s1: "sysStep cfg s (WorkerStep t e1) = ?s1"
    using t ab pc ge by (simp add: sysStep_def workerStep_def w_countStarted_def Let_def
        logEvents_def setWorker_def)
  let ?s2 = "logEvents (Worker t) [EvCountStarted ?h]
      (setWorker t (?w\<lparr>wpc := W_Release\<rparr>) (s\<lparr>mgr := ?m1\<rparr>))"
  have s2: "sysStep cfg ?s1 (WorkerStep t e2) = ?s2"
    using t ab nodata by (simp add: sysStep_def workerStep_def w_enqueue_def Let_def
        logEvents_def setWorker_def)
  have s3: "sysStep cfg ?s2 (WorkerStep t e3) =
       logEvents (Worker t) [EvCountStarted ?h, EvRelease ?h]
         (setWorker t (?w\<lparr>wpc := W_Done\<rparr>) (s\<lparr>mgr := m'\<rparr>))"
    using t ab nodata r by (simp add: sysStep_def workerStep_def w_release_def Let_def
        logEvents_def setWorker_def)
  have "run cfg [WorkerStep t e1, WorkerStep t e2, WorkerStep t e3] s =
       logEvents (Worker t) [EvCountStarted ?h, EvRelease ?h]
         (setWorker t (?w\<lparr>wpc := W_Done\<rparr>) (s\<lparr>mgr := m'\<rparr>))"
    by (simp only: run_Cons run_Nil s1 s2 s3)
  then show ?thesis
    using r by blast
qed

lemma selfplay_ceil: "selfplay ceilCfg (envFound ''net1'' True) = Inr sampleStart"
  by (simp add: selfplay_def loadLatestNeuralNetIntoManager_def envFound_def ceilCfg_def
      sampleStart_def makeDirsLoop.simps attemptDirs_def maxConcurrentEvals_def)

lemma atCeiling_facts:
  "aborted atCeiling = None" "wpc (workers atCeiling 1) = W_CountStarted"
  "gameIdx (workers atCeiling 1) = 1" "nnEval (workers atCeiling 1) = 0"
  "runGameIdxs atCeiling = []" "gamesStarted (mgr atCeiling) 0 = 0"
  "threadEvents (Worker 1) (trace atCeiling) = [EvAcquire 0, EvFetchIdx 1]"
  by (simp_all add: sample_defs run_Cons run_Nil step_defs mgr_defs eval_defs runGameIdxs_def)

lemma pastCeiling_facts:
  "aborted pastCeiling = None" "wpc (workers pastCeiling 1) = W_Done"
  "gameIdx (workers pastCeiling 1) = 1" "wpc (workers pastCeiling 0) = W_InGame"
  "runGameIdxs pastCeiling = [0]" "gamesStarted (mgr pastCeiling) 0 = 2"
  "threadEvents (Worker 1) (trace pastCeiling) =
     [EvAcquire 0, EvFetchIdx 1, EvCountStarted 0, EvRelease 0]"
  "numGamesStarted pastCeiling = 2"
  by (simp_all add: sample_defs run_Cons run_Nil step_defs mgr_defs eval_defs runGameIdxs_def)

text \<open>
  C3, as stated, fails: \<^verbatim>\<open>countOneGameStarted\<close> (line 265) is called before the index is
  compared with the ceiling (line 266). With a ceiling of one game and two game threads,
  thread 1 draws index 1, records one game started against the handle it acquired,
  calls no \<^verbatim>\<open>runGame\<close>, releases the handle and ends: two games are counted as started
  on handle 0, and \<^verbatim>\<open>runGame\<close> was called once, with index 0.
\<close>

theorem game_counted_at_ceiling_counterexample:
  "selfplay ceilCfg (envFound ''net1'' True) = Inr sampleStart \<and>
   pastCeiling = run ceilCfg (schedCeiling @ schedPastCeiling) sampleStart \<and>
   aborted pastCeiling = None \<and> maxGamesTotal ceilCfg = 1 \<and>
   gameIdx (workers pastCeiling 1) = 1 \<and> wpc (workers pastCeiling 1) = W_Done \<and>
   threadEvents (Worker 1) (trace pastCeiling) =
     [EvAcquire 0, EvFetchIdx 1, EvCountStarted 0, EvRelease 0] \<and>
   runGameIdxs pastCeiling = [0] \<and> gamesStarted (mgr pastCeiling) 0 = 2"
  using selfplay_ceil pastCeiling_facts
  by (simp add: pastCeiling_def ceilCfg_def)

text \<open>
  C3, amended. With the configuration in the ranges of lines 85 and 101, after every
  schedule: no two calls of \<^verbatim>\<open>runGame\<close> share a game index; the indices \<^verbatim>\<open>runGame\<close> was
  called with, together with the indices drawn below the ceiling by threads that have not
  yet called it, are the integers from 0 up to the shared counter or the ceiling,
  whichever is less, so whenever no thread is between its draw and its call the indices
  \<^verbatim>\<open>runGame\<close> was called with are a prefix of the integers below the ceiling; and a game
  thread that has drawn an index at or above the ceiling does record one game started
  against the handle it acquired, calls no \<^verbatim>\<open>runGame\<close>, releases the handle and stops.
\<close>

theorem game_indices_distinct_ceiling_stops:
  assumes "selfplay cfg env = Inr s0"
    and "1 \<le> maxGamesTotal cfg" and "maxGamesTotal cfg \<le> 2 ^ 62"
    and "numGameThreads cfg \<le> 16384"
  shows
    "(let s = run cfg cs s0;
          top = min (numGamesStarted s) (maxGamesTotal cfg);
          h = nnEval (workers s t);
          s3 = run cfg [WorkerStep t e1, WorkerStep t e2, WorkerStep t e3] s
      in distinct (runGameIdxs s) \<and>
         set (runGameIdxs s) \<union>
           {gameIdx (workers s u) |u. u < numGameThreads cfg \<and> pendingIdx cfg (workers s u)} =
           {0..<top} \<and>
         ((\<forall>u < numGameThreads cfg. \<not> pendingIdx cfg (workers s u)) \<longrightarrow>
            set (runGameIdxs s) = {0..<top}) \<and>
         (t < numGameThreads cfg \<and> aborted s = None \<and> wpc (workers s t) = W_CountStarted \<and>
          maxGamesTotal cfg \<le> gameIdx (workers s t) \<longrightarrow>
            aborted s3 = None \<and> wpc (workers s3 t) = W_Done \<and>
            runGameIdxs s3 = runGameIdxs s \<and>
            gamesStarted (mgr s3) h = gamesStarted (mgr s) h + 1 \<and>
            threadEvents (Worker t) (trace s3) =
              threadEvents (Worker t) (trace s) @ [EvCountStarted h, EvRelease h]))"
proof -
  let ?s = "run cfg cs s0"
  let ?N = "numGameThreads cfg"
  let ?top = "min (numGamesStarted ?s) (maxGamesTotal cfg)"
  let ?P = "{gameIdx (workers ?s u) |u. u < ?N \<and> pendingIdx cfg (workers ?s u)}"
  let ?h = "nnEval (workers ?s t)"
  let ?s3 = "run cfg [WorkerStep t e1, WorkerStep t e2, WorkerStep t e3] ?s"
  have inv: "idxInv cfg ?s"
    by (rule idxInv_run[OF idxInv_selfplay[OF assms(1,2)] assms(3,4)])
  have ref: "refInv cfg ?s"
    by (rule refInv_run[OF refInv_selfplay[OF assms(1)]])
  note d = idxInv_D[OF inv]
  have dist: "distinct (runGameIdxs ?s)"
    by (rule d(4))
  have un: "set (runGameIdxs ?s) \<union> ?P = {0..<?top}"
  proof (rule set_eqI)
    fix i
    have "i \<in> ?P \<longleftrightarrow> (\<exists>u < ?N. pendingIdx cfg (workers ?s u) \<and> gameIdx (workers ?s u) = i)"
      by auto
    then show "i \<in> set (runGameIdxs ?s) \<union> ?P \<longleftrightarrow> i \<in> {0..<?top}"
      using d(5)[of i] by simp
  qed
  have pre: "set (runGameIdxs ?s) = {0..<?top}"
    if "\<forall>u < ?N. \<not> pendingIdx cfg (workers ?s u)"
  proof -
    have e: "?P = {}" using that by auto
    show ?thesis using un unfolding e by simp
  qed
  have ceil: "aborted ?s3 = None \<and> wpc (workers ?s3 t) = W_Done \<and>
      runGameIdxs ?s3 = runGameIdxs ?s \<and>
      gamesStarted (mgr ?s3) ?h = gamesStarted (mgr ?s) ?h + 1 \<and>
      threadEvents (Worker t) (trace ?s3) =
        threadEvents (Worker t) (trace ?s) @ [EvCountStarted ?h, EvRelease ?h]"
    if t: "t < ?N" and ab: "aborted ?s = None" and pc: "wpc (workers ?s t) = W_CountStarted"
      and ge: "maxGamesTotal cfg \<le> gameIdx (workers ?s t)"
  proof -
    have nodata: "gameData (workers ?s t) = None"
      using d(3)[OF t] pc by (simp add: idxLocal_def)
    from ceiling_steps[OF ref t ab pc ge nodata, of e1 e2 e3] obtain m' where
      r: "release ?h (countOneGameStarted ?h (mgr ?s)) = Inr m'" and
      s3: "?s3 = logEvents (Worker t) [EvCountStarted ?h, EvRelease ?h]
             (setWorker t ((workers ?s t)\<lparr>wpc := W_Done\<rparr>) (?s\<lparr>mgr := m'\<rparr>))"
      by blast
    have g: "gamesStarted m' ?h = gamesStarted (mgr ?s) ?h + 1"
      using release_fields(1)[OF r] by (simp add: countOneGameStarted_def)
    show ?thesis
      unfolding s3 using ab g by (simp add: runGameIdxs_def setWorker_def)
  qed
  show ?thesis
    unfolding Let_def using dist un pre ceil by blast
qed

theorem game_indices_distinct_ceiling_stops_witness:
  "selfplay ceilCfg (envFound ''net1'' True) = Inr sampleStart \<and>
   1 \<le> maxGamesTotal ceilCfg \<and> maxGamesTotal ceilCfg \<le> 2 ^ 62 \<and>
   numGameThreads ceilCfg \<le> 16384 \<and> 1 < numGameThreads ceilCfg \<and>
   aborted atCeiling = None \<and> wpc (workers atCeiling 1) = W_CountStarted \<and>
   maxGamesTotal ceilCfg \<le> gameIdx (workers atCeiling 1) \<and>
   wpc (workers (run ceilCfg [WorkerStep 1 InvokeCallback, WorkerStep 1 InvokeCallback,
      WorkerStep 1 InvokeCallback] atCeiling) 1) = W_Done \<and>
   gamesStarted (mgr (run ceilCfg [WorkerStep 1 InvokeCallback, WorkerStep 1 InvokeCallback,
      WorkerStep 1 InvokeCallback] atCeiling)) 0 = 1 \<and>
   \<not> pendingIdx ceilCfg (workers pastCeiling 0) \<and> \<not> pendingIdx ceilCfg (workers pastCeiling 1) \<and>
   distinct (runGameIdxs pastCeiling) \<and>
   set (runGameIdxs pastCeiling) = {0..<min (numGamesStarted pastCeiling) (maxGamesTotal ceilCfg)}"
proof -
  have c: "1 \<le> maxGamesTotal ceilCfg" "maxGamesTotal ceilCfg \<le> 2 ^ 62"
    "numGameThreads ceilCfg \<le> 16384" "1 < numGameThreads ceilCfg"
    "maxGamesTotal ceilCfg = 1" "numGameThreads ceilCfg = 2"
    by (simp_all add: ceilCfg_def)
  have np: "\<not> pendingIdx ceilCfg (workers pastCeiling 0)"
    "\<not> pendingIdx ceilCfg (workers pastCeiling 1)"
    using pastCeiling_facts(2,4) by (simp_all add: pendingIdx_def)
  have all: "\<forall>u < numGameThreads ceilCfg. \<not> pendingIdx ceilCfg (workers pastCeiling u)"
    using np by (simp add: c(6) numeral_2_eq_2 less_Suc_eq)
  note a = game_indices_distinct_ceiling_stops[OF selfplay_ceil c(1,2,3),
      of schedCeiling 1 InvokeCallback InvokeCallback InvokeCallback, folded atCeiling_def,
      unfolded Let_def]
  note b = game_indices_distinct_ceiling_stops[OF selfplay_ceil c(1,2,3),
      of "schedCeiling @ schedPastCeiling" 1 InvokeCallback InvokeCallback InvokeCallback,
      folded pastCeiling_def, unfolded Let_def]
  show ?thesis
    using selfplay_ceil c(1-5) atCeiling_facts(1-4,6) np all a b
    by simp
qed

section \<open>The final sweep\<close>

text \<open>
  C2 does not hold of the code. The final sweep of lines 324-328 has the bound
  \<^verbatim>\<open>modelNames.size()-1\<close> of the sweep of lines 310-313, so it never reaches the last
  name. With one net loaded the poller ends without any call of
  \<^verbatim>\<open>scheduleCleanupModelWhenFree\<close>; with the names \<open>net1, net2\<close> it calls it for
  \<open>net1\<close> only. In both runs the newest handle is not retiring when the poller is done,
  and \<^verbatim>\<open>acquireLatest\<close> still offers it.
\<close>

theorem final_sweep_skips_newest:
  "modelNames (mgr sampleStart) = [''net1''] \<and>
   ppc (pollerSt shutdownOneNet) = P_Done \<and>
   aborted shutdownOneNet = None \<and>
   threadEvents Poller (trace shutdownOneNet) = [] \<and>
   modelNames (mgr shutdownOneNet) = [''net1''] \<and>
   retiring (mgr shutdownOneNet) 0 = False \<and>
   destroyLog (mgr shutdownOneNet) = [] \<and>
   fst (acquireLatest (mgr shutdownOneNet)) = Some 0 \<and>
   modelNames (mgr inGameNewNet) = [''net1'', ''net2''] \<and>
   ppc (pollerSt shutdownTwoNets) = P_Done \<and>
   aborted shutdownTwoNets = None \<and>
   threadEvents Poller (trace shutdownTwoNets) =
     [EvInitNNEval ''net2'' 28, EvMakeDirs 0 True, EvLoadModel ''net2'',
      EvSchedule ''net1'', EvSchedule ''net1''] \<and>
   snapshot (pollerSt shutdownTwoNets) = [''net1'', ''net2''] \<and>
   retiring (mgr shutdownTwoNets) 1 = False \<and>
   fst (acquireLatest (mgr shutdownTwoNets)) = Some 1"
  by (simp add: sample_defs run_Cons run_Nil step_defs mgr_defs eval_defs)

end
